theory Spec2Isabelle
  imports Main "HOL-Library.AList" "HOL-Library.Sublist" "HOL-Library.Multiset"
begin

section \<open>JavaScript values and the object heap\<close>

text \<open>
  The store engine of electron-conf (\<open>src/conf.ts\<close>, class \<open>BaseConf\<close>) keeps its document
  as a graph of JavaScript objects and hands references to that graph around: the \<open>store\<close>
  getter returns \<open>Object.assign(Object.create(null), this._store)\<close>, a copy of the top level
  only. What the engine does therefore depends on which objects are shared, and the model keeps
  an explicit heap: an object is a cell of the heap, a reference is the index of its cell.

  A cell records what \<open>typeof\<close>, \<open>Array.isArray\<close> and the prototype comparison of
  \<open>util.isDeepStrictEqual\<close> can tell apart (\<open>okind\<close>) and the own enumerable properties in
  enumeration order. Numbers are integers (versions, lengths and bounds are all the claims
  need). An array is a cell of kind \<open>Array\<close> whose properties are its elements under their
  decimal indices; its \<open>length\<close>, holes and the reordering of integer-like keys are not
  represented. Of the properties an object inherits only those of \<open>Object.prototype\<close> occur in
  the engine (in \<open>reset\<close>): \<open>VNative\<close> is an object of the runtime that is not a cell of the
  heap, named by the expression that denotes it (\<open>Object.prototype\<close>, \<open>Object\<close>,
  \<open>Object.prototype.toString\<close>, ...); it has no own enumerable properties.
\<close>

type_synonym addr = nat

datatype val =
    VUndefined
  | VNull
  | VBool bool
  | VNum int
  | VStr string
  | VSymbol
  | VObj addr
  | VNative string

datatype okind = NullProto | Plain | Array | Function

datatype obj = Obj (kind: okind) (props: "(string \<times> val) list")

type_synonym heap = "obj list"

definition cell_at :: "heap \<Rightarrow> addr \<Rightarrow> obj option" where
  "cell_at h a = (if a < length h then Some (h ! a) else None)"

definition alloc :: "heap \<Rightarrow> obj \<Rightarrow> addr \<times> heap" where
  "alloc h ob = (length h, h @ [ob])"

text \<open>\<open>object[key]\<close>: an own property, or \<open>undefined\<close>.\<close>

definition get_prop :: "heap \<Rightarrow> addr \<Rightarrow> string \<Rightarrow> val" where
  "get_prop h a k =
     (case cell_at h a of
        None \<Rightarrow> VUndefined
      | Some ob \<Rightarrow> (case map_of (props ob) k of None \<Rightarrow> VUndefined | Some v \<Rightarrow> v))"

text \<open>\<open>key in object\<close>, for own properties.\<close>

definition has_own :: "heap \<Rightarrow> addr \<Rightarrow> string \<Rightarrow> bool" where
  "has_own h a k =
     (case cell_at h a of None \<Rightarrow> False | Some ob \<Rightarrow> map_of (props ob) k \<noteq> None)"

text \<open>\<open>object[key] = value\<close>: an existing key keeps its place, a new key goes last.\<close>

definition set_prop :: "heap \<Rightarrow> addr \<Rightarrow> string \<Rightarrow> val \<Rightarrow> heap" where
  "set_prop h a k v =
     (case cell_at h a of
        None \<Rightarrow> h
      | Some ob \<Rightarrow> h[a := Obj (kind ob) (AList.update k v (props ob))])"

text \<open>\<open>delete object[key]\<close>.\<close>

definition del_prop :: "heap \<Rightarrow> addr \<Rightarrow> string \<Rightarrow> heap" where
  "del_prop h a k =
     (case cell_at h a of
        None \<Rightarrow> h
      | Some ob \<Rightarrow> h[a := Obj (kind ob) (AList.delete k (props ob))])"

text \<open>Of the native objects only \<open>Object.prototype\<close> is not a function.\<close>

definition native_is_function :: "string \<Rightarrow> bool" where
  "native_is_function n = (n \<noteq> ''Object.prototype'')"

text \<open>\<open>typeof value\<close>.\<close>

definition type_of :: "heap \<Rightarrow> val \<Rightarrow> string" where
  "type_of h v =
     (case v of
        VUndefined \<Rightarrow> ''undefined''
      | VNull \<Rightarrow> ''object''
      | VBool b \<Rightarrow> ''boolean''
      | VNum n \<Rightarrow> ''number''
      | VStr s \<Rightarrow> ''string''
      | VSymbol \<Rightarrow> ''symbol''
      | VObj a \<Rightarrow>
          (case cell_at h a of
             Some ob \<Rightarrow> (if kind ob = Function then ''function'' else ''object'')
           | None \<Rightarrow> ''object'')
      | VNative n \<Rightarrow> (if native_is_function n then ''function'' else ''object''))"

text \<open>The decimal name of an array index.\<close>

function index_key :: "nat \<Rightarrow> string" where
  "index_key n =
     (if n < 10 then [''0123456789'' ! n]
      else index_key (n div 10) @ [''0123456789'' ! (n mod 10)])"
  by pat_completeness auto
termination
  by (relation "measure id") auto

section \<open>Object utilities (\<open>src/utils.ts\<close>)\<close>

text \<open>
  \<open>deepEqual\<close> is \<open>util.isDeepStrictEqual\<close> of Node: identical values are equal; two objects
  are equal when their prototypes and kinds agree, they have the same own keys and the values
  under each key are equal in turn; two functions are equal only when identical. The descent is
  bounded by the number of cells of the heap, which no acyclic graph exceeds; with no fuel left
  only identical values are equal.
\<close>

fun deq :: "nat \<Rightarrow> heap \<Rightarrow> val \<Rightarrow> val \<Rightarrow> bool" where
  "deq 0 h v w = (v = w)"
| "deq (Suc m) h v w =
     (if v = w then True
      else (case (v, w) of
          (VObj a, VObj b) \<Rightarrow>
            (case (cell_at h a, cell_at h b) of
               (Some oa, Some ob) \<Rightarrow>
                 kind oa = kind ob \<and> kind oa \<noteq> Function \<and>
                 length (props oa) = length (props ob) \<and>
                 list_all (\<lambda>(k, x).
                     (case map_of (props ob) k of
                        None \<Rightarrow> False
                      | Some y \<Rightarrow> deq m h x y)) (props oa)
             | _ \<Rightarrow> False)
        | _ \<Rightarrow> False))"

definition deepEqual :: "heap \<Rightarrow> val \<Rightarrow> val \<Rightarrow> bool" where
  "deepEqual h v w = deq (length h) h v w"

text \<open>\<open>createPlainObject\<close>: \<open>Object.create(null)\<close>.\<close>

definition createPlainObject :: "heap \<Rightarrow> val \<times> heap" where
  "createPlainObject h = (let (a, h') = alloc h (Obj NullProto []) in (VObj a, h'))"

text \<open>The own enumerable properties \<open>Object.assign\<close>, \<open>Object.keys\<close> and \<open>Object.entries\<close> read.\<close>

definition own_props :: "heap \<Rightarrow> val \<Rightarrow> (string \<times> val) list" where
  "own_props h v =
     (case v of
        VObj a \<Rightarrow> (case cell_at h a of Some ob \<Rightarrow> props ob | None \<Rightarrow> [])
      | _ \<Rightarrow> [])"

text \<open>\<open>Object.assign(target, source)\<close> on the property list of the target.\<close>

definition assign_props :: "(string \<times> val) list \<Rightarrow> (string \<times> val) list \<Rightarrow> (string \<times> val) list" where
  "assign_props target source = fold (\<lambda>(k, v) ps. AList.update k v ps) source target"

text \<open>\<open>cloneObject\<close>: \<open>Object.assign(createPlainObject(), source)\<close>, a copy of the top level.\<close>

definition cloneObject :: "heap \<Rightarrow> val \<Rightarrow> val \<times> heap" where
  "cloneObject h source =
     (let (a, h') = alloc h (Obj NullProto (assign_props [] (own_props h source)))
      in (VObj a, h'))"

text \<open>\<open>mergeObject\<close>: \<open>Object.assign(createPlainObject(), ...sources)\<close>, later sources winning.\<close>

definition mergeObject :: "heap \<Rightarrow> val list \<Rightarrow> val \<times> heap" where
  "mergeObject h sources =
     (let (a, h') = alloc h (Obj NullProto (fold (\<lambda>s ps. assign_props ps (own_props h s)) sources []))
      in (VObj a, h'))"

text \<open>
  \<open>deepCloneObject\<close>: a value that is \<open>null\<close> or not of type \<open>object\<close> is returned as it is; an
  object gets a fresh \<open>[]\<close> or \<open>{}\<close> whose properties are the clones of the source's
  (\<open>Object.prototype\<close> has no enumerable property: its clone is an empty \<open>{}\<close>). The
  recursion of the source does not end on a cyclic graph; here it runs on fuel and \<open>None\<close> is
  the stack overflow.
\<close>

fun dclone :: "nat \<Rightarrow> heap \<Rightarrow> val \<Rightarrow> (val \<times> heap) option"
  and dclone_props :: "nat \<Rightarrow> heap \<Rightarrow> addr \<Rightarrow> (string \<times> val) list \<Rightarrow> heap option" where
  "dclone n h VUndefined = Some (VUndefined, h)"
| "dclone n h VNull = Some (VNull, h)"
| "dclone n h (VBool b) = Some (VBool b, h)"
| "dclone n h (VNum i) = Some (VNum i, h)"
| "dclone n h (VStr s) = Some (VStr s, h)"
| "dclone n h VSymbol = Some (VSymbol, h)"
| "dclone n h (VObj a) =
     (case cell_at h a of
        None \<Rightarrow> Some (VObj a, h)
      | Some ob \<Rightarrow>
          if kind ob = Function then Some (VObj a, h)
          else (case n of
             0 \<Rightarrow> None
           | Suc m \<Rightarrow>
               (let (c, h1) = alloc h (Obj (if kind ob = Array then Array else Plain) [])
                in (case dclone_props m h1 c (props ob) of
                      None \<Rightarrow> None
                    | Some h2 \<Rightarrow> Some (VObj c, h2)))))"
| "dclone n h (VNative s) =
     (if native_is_function s then Some (VNative s, h)
      else (let (c, h1) = alloc h (Obj Plain []) in Some (VObj c, h1)))"
| "dclone_props n h c [] = Some h"
| "dclone_props n h c ((k, v) # ps) =
     (case dclone n h v of
        None \<Rightarrow> None
      | Some (v', h1) \<Rightarrow> dclone_props n (set_prop h1 c k v') c ps)"

definition deepCloneObject :: "heap \<Rightarrow> val \<Rightarrow> (val \<times> heap) option" where
  "deepCloneObject h source = dclone (length h) h source"

section \<open>The path accessor (\<open>dot-prop\<close>)\<close>

text \<open>
  \<open>getProperty\<close>, \<open>hasProperty\<close>, \<open>setProperty\<close> and \<open>deleteProperty\<close> come from the npm package
  \<open>dot-prop\<close> (the repository depends on version 9), whose source is not part of the
  repository. Section 4.1 of the specification gives their contract: a path is a string of
  dot-separated segments, each segment addresses a key of a mapping; \<open>get\<close> on a missing path
  returns the default; \<open>set\<close> creates the intermediate mappings it needs; \<open>delete\<close> on a
  missing path does nothing. Where the contract is silent the definitions of this section
  follow what the package does: a backslash escapes the next dot or bracket; digits in brackets
  are an array index; a path with a segment \<open>__proto__\<close>, \<open>prototype\<close> or \<open>constructor\<close> has no
  segments at all, so that \<open>get\<close> answers the default and \<open>set\<close> and \<open>delete\<close> do nothing; a
  malformed index and a string used as the index of an array are errors. Properties inherited
  from a prototype (\<open>toString\<close>, the \<open>length\<close> of an array or of a string) and the properties of
  native objects are not represented: such a property reads as \<open>undefined\<close>.
\<close>

text \<open>What \<open>dot-prop\<close> throws (an \<open>Error\<close> with this message).\<close>

datatype path_error = PathError string

text \<open>
  Modelled from the spec: a segment of a parsed path. A segment the package holds as a number
  (\<open>numeric\<close>) came from an index in brackets; \<open>key_of\<close> is the name of the property it
  addresses, for a number its decimal digits.
\<close>

datatype segment = Seg (numeric: bool) (key_of: string)

datatype part = Start | Property | Index | IndexEnd

definition disallowedKeys :: "string list" where
  "disallowedKeys = [''__proto__'', ''prototype'', ''constructor'']"

definition digits :: "char list" where
  "digits = ''0123456789''"

text \<open>The value of a string of decimal digits.\<close>

definition nat_of_digits :: "string \<Rightarrow> nat" where
  "nat_of_digits ds = foldl (\<lambda>n c. 10 * n + (of_char c - 48)) 0 ds"

text \<open>
  The property that \<open>Number.parseInt(currentSegment, 10)\<close> addresses, for the digits between
  brackets: no digits give \<open>NaN\<close>.
\<close>

definition index_name :: "string \<Rightarrow> string" where
  "index_name ds = (if ds = [] then ''NaN'' else index_key (nat_of_digits ds))"

text \<open>
  Modelled from the spec: the loop of \<open>getPathSegments\<close> over the characters of the path, with
  the variables \<open>parts\<close>, \<open>currentSegment\<close>, \<open>currentPart\<close> and \<open>isIgnoring\<close> as arguments, and
  what follows the loop. \<open>CHR 0x5C\<close> is the backslash.
\<close>

fun path_loop :: "string \<Rightarrow> segment list \<Rightarrow> string \<Rightarrow> part \<Rightarrow> bool \<Rightarrow> path_error + segment list" where
  "path_loop [] parts currentSegment currentPart isIgnoring =
     (case currentPart of
        Property \<Rightarrow>
          if List.member disallowedKeys
               (if isIgnoring then currentSegment @ [CHR 0x5C] else currentSegment)
          then Inr []
          else Inr (parts @ [Seg False (if isIgnoring then currentSegment @ [CHR 0x5C] else currentSegment)])
      | Index \<Rightarrow> Inl (PathError ''Index was not closed'')
      | Start \<Rightarrow> Inr (parts @ [Seg False []])
      | IndexEnd \<Rightarrow> Inr parts)"
| "path_loop (character # rest) parts currentSegment currentPart isIgnoring =
     (if character = CHR 0x5C then
        (if currentPart = Index then Inl (PathError ''Invalid character in an index'')
         else if currentPart = IndexEnd then Inl (PathError ''Invalid character after an index'')
         else path_loop rest parts
                (if isIgnoring then currentSegment @ [character] else currentSegment)
                Property (\<not> isIgnoring))
      else if character = CHR ''.'' then
        (if currentPart = Index then Inl (PathError ''Invalid character in an index'')
         else if currentPart = IndexEnd then path_loop rest parts currentSegment Property isIgnoring
         else if isIgnoring then path_loop rest parts (currentSegment @ [character]) currentPart False
         else if List.member disallowedKeys currentSegment then Inr []
         else path_loop rest (parts @ [Seg False currentSegment]) [] Property False)
      else if character = CHR ''['' then
        (if currentPart = Index then Inl (PathError ''Invalid character in an index'')
         else if currentPart = IndexEnd then path_loop rest parts currentSegment Index isIgnoring
         else if isIgnoring then path_loop rest parts (currentSegment @ [character]) currentPart False
         else if currentPart = Property then
           (if List.member disallowedKeys currentSegment then Inr []
            else path_loop rest (parts @ [Seg False currentSegment]) [] Index False)
         else path_loop rest parts currentSegment Index False)
      else if character = CHR '']'' \<and> currentPart = Index then
        path_loop rest (parts @ [Seg True (index_name currentSegment)]) [] IndexEnd isIgnoring
      else if character = CHR '']'' \<and> currentPart = IndexEnd then
        Inl (PathError ''Invalid character after an index'')
      else
        (if currentPart = Index \<and> \<not> List.member digits character
         then Inl (PathError ''Invalid character in an index'')
         else if currentPart = IndexEnd then Inl (PathError ''Invalid character after an index'')
         else path_loop rest parts
                ((if isIgnoring then currentSegment @ [CHR 0x5C] else currentSegment) @ [character])
                (if currentPart = Start then Property else currentPart) False))"

text \<open>Modelled from the spec: \<open>getPathSegments\<close>, the parser of paths.\<close>

definition getPathSegments :: "string \<Rightarrow> path_error + segment list" where
  "getPathSegments path = path_loop path [] [] Start False"

text \<open>
  Modelled from the spec: \<open>isObject\<close>, objects and functions but not \<open>null\<close>. A reference to no
  cell does not occur; a native object counts as no object here, its properties not being
  represented.
\<close>

definition isObject :: "heap \<Rightarrow> val \<Rightarrow> bool" where
  "isObject h v = (case v of VObj a \<Rightarrow> a < length h | _ \<Rightarrow> False)"

text \<open>Modelled from the spec: \<open>object[key]\<close> for any value \<open>object\<close>.\<close>

definition prop_of :: "heap \<Rightarrow> val \<Rightarrow> string \<Rightarrow> val" where
  "prop_of h v k = (case v of VObj a \<Rightarrow> get_prop h a k | _ \<Rightarrow> VUndefined)"

text \<open>
  \<open>Number.parseInt(key, 10)\<close> of a string: white space, a sign and decimal digits are read,
  whatever follows is ignored; without a digit the result is \<open>NaN\<close>, here \<open>None\<close>.
\<close>

definition is_space :: "char \<Rightarrow> bool" where
  "is_space c = List.member [CHR 0x09, CHR 0x0A, CHR 0x0B, CHR 0x0C, CHR 0x0D, CHR 0x20] c"

definition parseInt :: "string \<Rightarrow> int option" where
  "parseInt s =
     (let t = dropWhile is_space s;
          u = (if t \<noteq> [] \<and> (hd t = CHR ''-'' \<or> hd t = CHR ''+'') then tl t else t);
          ds = takeWhile (List.member digits) u
      in if ds = [] then None
         else if t \<noteq> [] \<and> hd t = CHR ''-'' then Some (- int (nat_of_digits ds))
         else Some (int (nat_of_digits ds)))"

text \<open>The name of the property an integer addresses.\<close>

definition number_key :: "int \<Rightarrow> string" where
  "number_key i = (if i < 0 then CHR ''-'' # index_key (nat (- i)) else index_key (nat i))"

definition isArray :: "heap \<Rightarrow> val \<Rightarrow> bool" where
  "isArray h v =
     (case v of
        VObj a \<Rightarrow> (case cell_at h a of Some ob \<Rightarrow> kind ob = Array | None \<Rightarrow> False)
      | _ \<Rightarrow> False)"

text \<open>
  Modelled from the spec: \<open>isStringIndex\<close>. The key is a string, the object an array, the key
  reads as an integer and \<open>object[index] === object[key]\<close>.
\<close>

definition isStringIndex :: "heap \<Rightarrow> val \<Rightarrow> segment \<Rightarrow> bool" where
  "isStringIndex h ob s =
     (\<not> numeric s \<and> isArray h ob \<and>
      (case parseInt (key_of s) of
         None \<Rightarrow> False
       | Some i \<Rightarrow> prop_of h ob (number_key i) = prop_of h ob (key_of s)))"

definition string_index_error :: path_error where
  "string_index_error = PathError ''Cannot use string index''"

text \<open>Modelled from the spec: the loop of \<open>getProperty\<close> and what follows it.\<close>

fun get_loop :: "heap \<Rightarrow> val \<Rightarrow> segment list \<Rightarrow> val \<Rightarrow> val" where
  "get_loop h ob [] d = (if ob = VUndefined then d else ob)"
| "get_loop h ob (s # ss) d =
     (if isStringIndex h ob s then d
      else if prop_of h ob (key_of s) = VUndefined \<or> prop_of h ob (key_of s) = VNull
      then (if ss = []
            then (if prop_of h ob (key_of s) = VUndefined then d else prop_of h ob (key_of s))
            else d)
      else get_loop h (prop_of h ob (key_of s)) ss d)"

text \<open>Modelled from the spec: \<open>getProperty\<close>.\<close>

definition getProperty :: "heap \<Rightarrow> val \<Rightarrow> string \<Rightarrow> val \<Rightarrow> path_error + val" where
  "getProperty h ob path d =
     (if \<not> isObject h ob then Inr (if d = VUndefined then ob else d)
      else (case getPathSegments path of
              Inl e \<Rightarrow> Inl e
            | Inr [] \<Rightarrow> Inr d
            | Inr (s # ss) \<Rightarrow> Inr (get_loop h ob (s # ss) d)))"

text \<open>Modelled from the spec: the loop of \<open>hasProperty\<close>; \<open>key in object\<close> for own properties.\<close>

fun has_loop :: "heap \<Rightarrow> val \<Rightarrow> segment list \<Rightarrow> bool" where
  "has_loop h ob [] = True"
| "has_loop h ob (s # ss) =
     (case ob of
        VObj a \<Rightarrow>
          (if isObject h ob \<and> has_own h a (key_of s) \<and> \<not> isStringIndex h ob s
           then has_loop h (get_prop h a (key_of s)) ss
           else False)
      | _ \<Rightarrow> False)"

text \<open>Modelled from the spec: \<open>hasProperty\<close>.\<close>

definition hasProperty :: "heap \<Rightarrow> val \<Rightarrow> string \<Rightarrow> path_error + bool" where
  "hasProperty h ob path =
     (if \<not> isObject h ob then Inr False
      else (case getPathSegments path of
              Inl e \<Rightarrow> Inl e
            | Inr [] \<Rightarrow> Inr False
            | Inr (s # ss) \<Rightarrow> Inr (has_loop h ob (s # ss))))"

text \<open>Modelled from the spec: \<open>object[key]\<close> when \<open>isObject(object[key])\<close>.\<close>

definition child :: "heap \<Rightarrow> addr \<Rightarrow> string \<Rightarrow> addr option" where
  "child h a k =
     (case get_prop h a k of
        VObj b \<Rightarrow> (if isObject h (VObj b) then Some b else None)
      | _ \<Rightarrow> None)"

text \<open>
  Modelled from the spec: the loop of \<open>setProperty\<close>. An intermediate value that is not an
  object is replaced by \<open>[]\<close> when the next segment is a number and by \<open>{}\<close> otherwise. When
  \<open>assertNotStringIndex\<close> throws, what the loop has created so far stays.
\<close>

fun set_loop :: "heap \<Rightarrow> addr \<Rightarrow> segment list \<Rightarrow> val \<Rightarrow> path_error option \<times> heap" where
  "set_loop h a [] v = (None, h)"
| "set_loop h a [s] v =
     (if isStringIndex h (VObj a) s then (Some string_index_error, h)
      else (None, set_prop h a (key_of s) v))"
| "set_loop h a (s # s' # ss) v =
     (if isStringIndex h (VObj a) s then (Some string_index_error, h)
      else (case child h a (key_of s) of
              Some b \<Rightarrow> set_loop h b (s' # ss) v
            | None \<Rightarrow>
                (let (c, h1) = alloc h (Obj (if numeric s' then Array else Plain) [])
                 in set_loop (set_prop h1 a (key_of s) (VObj c)) c (s' # ss) v)))"

text \<open>Modelled from the spec: \<open>setProperty\<close>.\<close>

definition setProperty :: "heap \<Rightarrow> val \<Rightarrow> string \<Rightarrow> val \<Rightarrow> path_error option \<times> heap" where
  "setProperty h ob path v =
     (case ob of
        VObj a \<Rightarrow>
          (if isObject h ob
           then (case getPathSegments path of
                   Inl e \<Rightarrow> (Some e, h)
                 | Inr ss \<Rightarrow> set_loop h a ss v)
           else (None, h))
      | _ \<Rightarrow> (None, h))"

text \<open>Modelled from the spec: the loop of \<open>deleteProperty\<close>.\<close>

fun delete_loop :: "heap \<Rightarrow> addr \<Rightarrow> segment list \<Rightarrow> path_error option \<times> heap" where
  "delete_loop h a [] = (None, h)"
| "delete_loop h a [s] =
     (if isStringIndex h (VObj a) s then (Some string_index_error, h)
      else (None, del_prop h a (key_of s)))"
| "delete_loop h a (s # s' # ss) =
     (if isStringIndex h (VObj a) s then (Some string_index_error, h)
      else (case child h a (key_of s) of
              Some b \<Rightarrow> delete_loop h b (s' # ss)
            | None \<Rightarrow> (None, h)))"

text \<open>Modelled from the spec: \<open>deleteProperty\<close>.\<close>

definition deleteProperty :: "heap \<Rightarrow> val \<Rightarrow> string \<Rightarrow> path_error option \<times> heap" where
  "deleteProperty h ob path =
     (case ob of
        VObj a \<Rightarrow>
          (if isObject h ob
           then (case getPathSegments path of
                   Inl e \<Rightarrow> (Some e, h)
                 | Inr ss \<Rightarrow> delete_loop h a ss)
           else (None, h))
      | _ \<Rightarrow> (None, h))"

section \<open>The default serializer\<close>

text \<open>
  \<open>JsonSerializer\<close> writes with \<open>JSON.stringify\<close> and reads with \<open>JSON.parse\<close>. The text of the
  file is represented by the JSON tree it denotes. \<open>JSON.stringify\<close> leaves out a property whose
  value is \<open>undefined\<close>, a function or a symbol, writes \<open>null\<close> for such an element of an array,
  and throws on a cyclic structure (here: when the fuel, the number of cells, runs out).
\<close>

datatype json =
    JNull
  | JBool bool
  | JNum int
  | JStr string
  | JArr "json list"
  | JObj "(string \<times> json) list"

datatype sres = SErr | SSkip | SVal json

fun stringify :: "nat \<Rightarrow> heap \<Rightarrow> val \<Rightarrow> sres"
  and stringify_obj :: "nat \<Rightarrow> heap \<Rightarrow> (string \<times> val) list \<Rightarrow> (string \<times> json) list option"
  and stringify_arr :: "nat \<Rightarrow> heap \<Rightarrow> (string \<times> val) list \<Rightarrow> json list option" where
  "stringify n h VUndefined = SSkip"
| "stringify n h VNull = SVal JNull"
| "stringify n h (VBool b) = SVal (JBool b)"
| "stringify n h (VNum i) = SVal (JNum i)"
| "stringify n h (VStr s) = SVal (JStr s)"
| "stringify n h VSymbol = SSkip"
| "stringify n h (VObj a) =
     (case cell_at h a of
        None \<Rightarrow> SSkip
      | Some ob \<Rightarrow>
          if kind ob = Function then SSkip
          else (case n of
             0 \<Rightarrow> SErr
           | Suc m \<Rightarrow>
               if kind ob = Array
               then (case stringify_arr m h (props ob) of None \<Rightarrow> SErr | Some js \<Rightarrow> SVal (JArr js))
               else (case stringify_obj m h (props ob) of None \<Rightarrow> SErr | Some fs \<Rightarrow> SVal (JObj fs))))"
| "stringify n h (VNative s) = (if native_is_function s then SSkip else SVal (JObj []))"
| "stringify_obj n h [] = Some []"
| "stringify_obj n h ((k, v) # ps) =
     (case stringify n h v of
        SErr \<Rightarrow> None
      | SSkip \<Rightarrow> stringify_obj n h ps
      | SVal j \<Rightarrow> (case stringify_obj n h ps of None \<Rightarrow> None | Some fs \<Rightarrow> Some ((k, j) # fs)))"
| "stringify_arr n h [] = Some []"
| "stringify_arr n h ((k, v) # ps) =
     (case stringify n h v of
        SErr \<Rightarrow> None
      | SSkip \<Rightarrow> (case stringify_arr n h ps of None \<Rightarrow> None | Some js \<Rightarrow> Some (JNull # js))
      | SVal j \<Rightarrow> (case stringify_arr n h ps of None \<Rightarrow> None | Some js \<Rightarrow> Some (j # js)))"

definition JSON_stringify :: "heap \<Rightarrow> val \<Rightarrow> sres" where
  "JSON_stringify h v = stringify (length h) h v"

text \<open>\<open>JSON.parse\<close>: the tree becomes fresh objects; of a repeated key the last value stays.\<close>

fun JSON_parse :: "json \<Rightarrow> heap \<Rightarrow> val \<times> heap"
  and parse_fields :: "(string \<times> json) list \<Rightarrow> (string \<times> val) list \<Rightarrow> heap \<Rightarrow> (string \<times> val) list \<times> heap"
  and parse_elems :: "json list \<Rightarrow> (string \<times> val) list \<Rightarrow> heap \<Rightarrow> (string \<times> val) list \<times> heap" where
  "JSON_parse JNull h = (VNull, h)"
| "JSON_parse (JBool b) h = (VBool b, h)"
| "JSON_parse (JNum i) h = (VNum i, h)"
| "JSON_parse (JStr s) h = (VStr s, h)"
| "JSON_parse (JArr js) h =
     (let (ps, h1) = parse_elems js [] h; (a, h2) = alloc h1 (Obj Array ps) in (VObj a, h2))"
| "JSON_parse (JObj fs) h =
     (let (ps, h1) = parse_fields fs [] h; (a, h2) = alloc h1 (Obj Plain ps) in (VObj a, h2))"
| "parse_fields [] acc h = (acc, h)"
| "parse_fields ((k, j) # fs) acc h =
     (let (v, h1) = JSON_parse j h in parse_fields fs (AList.update k v acc) h1)"
| "parse_elems [] acc h = (acc, h)"
| "parse_elems (j # js) acc h =
     (let (v, h1) = JSON_parse j h in parse_elems js (acc @ [(index_key (length acc), v)]) h1)"

section \<open>The store engine (\<open>src/conf.ts\<close>)\<close>

text \<open>
  What a call throws. The \<open>TypeError\<close>s of \<open>set\<close> are told apart by their message; an error of
  the file system carries its \<open>code\<close>; an error of the path accessor passes through the engine
  as it is.
\<close>

datatype error =
    KeyTypeError
  | UseDeleteError
  | ReservedKeyError
  | BannedTypeError string string
  | NullKeyError
  | SchemaViolation
  | CircularStructure
  | CallStackExceeded
  | IOError string
  | HookError string
  | AccessorError path_error

text \<open>
  The two ways \<open>write\<close> reaches the disk: \<open>writeFileSync\<close> of the package \<open>atomically\<close> (write a
  temporary file, then rename it) and \<open>fs.writeFileSync\<close>.
\<close>

datatype fs_call = AtomicWrite json | DirectWrite json

text \<open>A subscription observes the whole document or the value under one key.\<close>

datatype selector = WholeStore | AtKey string

text \<open>
  The state of one \<open>BaseConf\<close> instance and of the part of the world it touches.
  \<^item> \<open>heap\<close>: the objects of the process;
  \<^item> \<open>store_cache\<close>: the private field \<open>_store\<close>, absent until the first read;
  \<^item> \<open>defaultValues\<close>: the properties of the field of that name;
  \<^item> \<open>validator\<close>: the function Ajv compiled from the schema, if there is a schema (Ajv is not
    part of the repository: its verdict on a document is a parameter);
  \<^item> \<open>file_content\<close>: the content of \<open>fileName\<close>, absent when the file does not exist;
  \<^item> \<open>env_SNAP\<close>: \<open>process.env.SNAP\<close>;
  \<^item> \<open>atomic_error\<close>, \<open>direct_error\<close>: the code of the error the next atomic, respectively
    direct, write throws, if it throws; a write that throws leaves the file as it was;
  \<^item> \<open>fs_calls\<close>: the writes attempted so far, oldest first;
  \<^item> \<open>listeners\<close>: the \<open>change\<close> listeners of \<open>events\<close> in the order they were added, each with
    its selector and the \<open>currentValue\<close> of its closure;
  \<^item> \<open>calls\<close>: the invocations of subscribers' callbacks so far, as (subscription, newValue,
    oldValue). The callbacks are code of the caller; the model records that they were called.
\<close>

record conf =
  heap :: heap
  store_cache :: "addr option"
  defaultValues :: "(string \<times> val) list"
  validator :: "(heap \<Rightarrow> val \<Rightarrow> bool) option"
  file_content :: "json option"
  env_SNAP :: "string option"
  atomic_error :: "string option"
  direct_error :: "string option"
  fs_calls :: "fs_call list"
  listeners :: "(nat \<times> selector \<times> val) list"
  next_listener :: nat
  calls :: "(nat \<times> val \<times> val) list"

type_synonym 'a result = "(error + 'a) \<times> conf"

definition INTERNAL_KEY :: string where
  "INTERNAL_KEY = ''__internal__''"

definition MIGRATION_KEY :: string where
  "MIGRATION_KEY = INTERNAL_KEY @ ''.migrationVersion''"

definition BAN_TYPES :: "string list" where
  "BAN_TYPES = [''undefined'', ''symbol'', ''function'']"

subsection \<open>Reading, validating, writing\<close>

text \<open>
  \<open>read\<close>: an empty object when the file does not exist, else a copy of the top level of what
  the serializer read. (\<open>ensureDirectory\<close> creates a directory and does not touch the file.)
\<close>

definition read :: "conf \<Rightarrow> val \<times> conf" where
  "read c =
     (case file_content c of
        None \<Rightarrow> (let (v, h1) = createPlainObject (heap c) in (v, c\<lparr>heap := h1\<rparr>))
      | Some data \<Rightarrow>
          (let (deserializedData, h1) = JSON_parse data (heap c);
               (v, h2) = cloneObject h1 deserializedData
           in (v, c\<lparr>heap := h2\<rparr>)))"

text \<open>\<open>validate\<close> returns when there is no validator or the validator accepts, and throws else.\<close>

definition validate :: "conf \<Rightarrow> val \<Rightarrow> bool" where
  "validate c data = (case validator c of None \<Rightarrow> True | Some f \<Rightarrow> f (heap c) data)"

definition direct_write :: "conf \<Rightarrow> json \<Rightarrow> error option \<times> conf" where
  "direct_write c data =
     (let c1 = c\<lparr>fs_calls := fs_calls c @ [DirectWrite data]\<rparr>
      in (case direct_error c of
            Some code \<Rightarrow> (Some (IOError code), c1)
          | None \<Rightarrow> (None, c1\<lparr>file_content := Some data\<rparr>)))"

definition atomic_write :: "conf \<Rightarrow> json \<Rightarrow> error option \<times> conf" where
  "atomic_write c data =
     (let c1 = c\<lparr>fs_calls := fs_calls c @ [AtomicWrite data]\<rparr>
      in (case atomic_error c of
            Some code \<Rightarrow> (Some (IOError code), c1)
          | None \<Rightarrow> (None, c1\<lparr>file_content := Some data\<rparr>)))"

text \<open>\<open>if (process.env.SNAP)\<close>: a variable that is set to the empty string is falsy.\<close>

definition snap_truthy :: "conf \<Rightarrow> bool" where
  "snap_truthy c = (case env_SNAP c of None \<Rightarrow> False | Some s \<Rightarrow> s \<noteq> [])"

text \<open>The method \<open>write\<close> (the name is a keyword of Isabelle).\<close>

definition write_file :: "conf \<Rightarrow> val \<Rightarrow> error option \<times> conf" where
  "write_file c v =
     (case JSON_stringify (heap c) v of
        SErr \<Rightarrow> (Some CircularStructure, c)
      | SSkip \<Rightarrow> (Some (IOError ''ERR_INVALID_ARG_TYPE''), c)
      | SVal data \<Rightarrow>
          if snap_truthy c then direct_write c data
          else (case atomic_write c data of
                  (None, c1) \<Rightarrow> (None, c1)
                | (Some err, c1) \<Rightarrow>
                    if err = IOError ''EXDEV'' then direct_write c1 data
                    else (Some err, c1)))"

subsection \<open>The \<open>store\<close> accessor and the change event\<close>

text \<open>
  The getter: a copy of the top level of the cached document, or, the first time, the document
  read from the file, cached, validated and returned as it is.
\<close>

definition get_store :: "conf \<Rightarrow> val result" where
  "get_store c =
     (case store_cache c of
        Some a \<Rightarrow> (let (v, h1) = cloneObject (heap c) (VObj a) in (Inr v, c\<lparr>heap := h1\<rparr>))
      | None \<Rightarrow>
          (let (v, c1) = read c;
               c2 = c1\<lparr>store_cache := (case v of VObj a \<Rightarrow> Some a | _ \<Rightarrow> None)\<rparr>
           in if validate c2 v then (Inr v, c2) else (Inl SchemaViolation, c2)))"

text \<open>\<open>get\<close> and \<open>has\<close>.\<close>

definition get :: "conf \<Rightarrow> string \<Rightarrow> val \<Rightarrow> val result" where
  "get c key defaultValue =
     (case get_store c of
        (Inl e, c1) \<Rightarrow> (Inl e, c1)
      | (Inr s, c1) \<Rightarrow>
          (case getProperty (heap c1) s key defaultValue of
             Inl e \<Rightarrow> (Inl (AccessorError e), c1)
           | Inr v \<Rightarrow> (Inr v, c1)))"

definition has :: "conf \<Rightarrow> string \<Rightarrow> bool result" where
  "has c key =
     (case get_store c of
        (Inl e, c1) \<Rightarrow> (Inl e, c1)
      | (Inr s, c1) \<Rightarrow>
          (case hasProperty (heap c1) s key of
             Inl e \<Rightarrow> (Inl (AccessorError e), c1)
           | Inr b \<Rightarrow> (Inr b, c1)))"

text \<open>
  The getter a subscription was made with: \<open>() => this.store\<close> or \<open>() => this.get(key)\<close>.
\<close>

definition run_getter :: "conf \<Rightarrow> selector \<Rightarrow> val result" where
  "run_getter c sel = (case sel of WholeStore \<Rightarrow> get_store c | AtKey key \<Rightarrow> get c key VUndefined)"

text \<open>
  \<open>onChange\<close> of \<open>handleChange\<close>, for the listener \<open>i\<close>: fetch the value again and compare it with
  \<open>currentValue\<close>; when they differ, remember the new value and call the callback.
\<close>

definition onChange :: "conf \<Rightarrow> nat \<Rightarrow> selector \<Rightarrow> conf" where
  "onChange c i sel =
     (case map_of (listeners c) i of
        None \<Rightarrow> c
      | Some (sel', oldValue) \<Rightarrow>
          (case run_getter c sel of
             (Inl e, c1) \<Rightarrow> c1
           | (Inr newValue, c1) \<Rightarrow>
               if deepEqual (heap c1) newValue oldValue then c1
               else c1\<lparr>listeners := AList.update i (sel, newValue) (listeners c1),
                       calls := calls c1 @ [(i, newValue, oldValue)]\<rparr>))"

text \<open>\<open>events.dispatchEvent(new Event('change'))\<close>: the listeners run in the order they were added.\<close>

definition dispatch_change :: "conf \<Rightarrow> conf" where
  "dispatch_change c = fold (\<lambda>(i, sel, cur) c'. onChange c' i sel) (listeners c) c"

text \<open>The setter: validate, write, replace the cache, fire the event.\<close>

definition set_store :: "conf \<Rightarrow> val \<Rightarrow> unit result" where
  "set_store c v =
     (if \<not> validate c v then (Inl SchemaViolation, c)
      else (case write_file c v of
              (Some e, c1) \<Rightarrow> (Inl e, c1)
            | (None, c1) \<Rightarrow>
                (Inr (), dispatch_change (c1\<lparr>store_cache := (case v of VObj a \<Rightarrow> Some a | _ \<Rightarrow> None)\<rparr>))))"

subsection \<open>\<open>set\<close>, \<open>reset\<close>, \<open>delete\<close>, \<open>clear\<close>\<close>

definition containsReservedKey :: "heap \<Rightarrow> val \<Rightarrow> bool" where
  "containsReservedKey h key =
     (if type_of h key = ''object'' \<and> (case own_props h key of [] \<Rightarrow> False | (firstKey, x) # ps \<Rightarrow> firstKey = INTERNAL_KEY)
      then True
      else (case key of
              VStr s \<Rightarrow> prefix (INTERNAL_KEY @ ''.'') s
            | _ \<Rightarrow> False))"

text \<open>
  The method \<open>set\<close> is \<open>set_item\<close> here (\<open>set\<close> is taken in HOL). \<open>set_entries\<close> is its inner
  function \<open>set\<close>, applied to the entries in turn on the copy
  \<open>store\<close>. A banned value or an error of \<open>setProperty\<close> stops the loop; what has been written
  until then stays written.
\<close>

fun set_entries :: "heap \<Rightarrow> val \<Rightarrow> (string \<times> val) list \<Rightarrow> error option \<times> heap" where
  "set_entries h store [] = (None, h)"
| "set_entries h store ((key, v) # es) =
     (if List.member BAN_TYPES (type_of h v) then (Some (BannedTypeError (type_of h v) key), h)
      else (case setProperty h store key v of
              (Some e, h1) \<Rightarrow> (Some (AccessorError e), h1)
            | (None, h1) \<Rightarrow> set_entries h1 store es))"

definition set_item :: "conf \<Rightarrow> val \<Rightarrow> val \<Rightarrow> unit result" where
  "set_item c key v =
     (if type_of (heap c) key \<noteq> ''string'' \<and> type_of (heap c) key \<noteq> ''object''
      then (Inl KeyTypeError, c)
      else if type_of (heap c) key \<noteq> ''object'' \<and> v = VUndefined then (Inl UseDeleteError, c)
      else if key = VNull then (Inl NullKeyError, c)
      else if containsReservedKey (heap c) key then (Inl ReservedKeyError, c)
      else (case get_store c of
              (Inl e, c1) \<Rightarrow> (Inl e, c1)
            | (Inr store, c1) \<Rightarrow>
                (case set_entries (heap c1) store
                        (case key of VStr s \<Rightarrow> [(s, v)] | _ \<Rightarrow> own_props (heap c1) key) of
                   (Some e, h2) \<Rightarrow> (Inl e, c1\<lparr>heap := h2\<rparr>)
                 | (None, h2) \<Rightarrow> set_store (c1\<lparr>heap := h2\<rparr>) store)))"

text \<open>
  What \<open>object[key]\<close> finds on \<open>Object.prototype\<close> when \<open>object\<close> is an ordinary object without
  an own property \<open>key\<close>: the accessor \<open>__proto__\<close> answers the prototype, the other eleven
  properties are functions.
\<close>

definition object_prototype_methods :: "string list" where
  "object_prototype_methods =
     [''__defineGetter__'', ''__defineSetter__'', ''hasOwnProperty'', ''__lookupGetter__'',
      ''__lookupSetter__'', ''isPrototypeOf'', ''propertyIsEnumerable'', ''toString'',
      ''valueOf'', ''toLocaleString'']"

definition inherited_property :: "string \<Rightarrow> val" where
  "inherited_property key =
     (if key = ''__proto__'' then VNative ''Object.prototype''
      else if key = ''constructor'' then VNative ''Object''
      else if List.member object_prototype_methods key then VNative (''Object.prototype.'' @ key)
      else VUndefined)"

text \<open>
  \<open>this.defaultValues[key]\<close>: the field is \<open>{}\<close> or \<open>{ ...defaults }\<close>, an ordinary object.
\<close>

definition default_value :: "conf \<Rightarrow> string \<Rightarrow> val" where
  "default_value c key =
     (case map_of (defaultValues c) key of None \<Rightarrow> inherited_property key | Some d \<Rightarrow> d)"

fun reset :: "conf \<Rightarrow> string list \<Rightarrow> unit result" where
  "reset c [] = (Inr (), c)"
| "reset c (key # keys) =
     (case deepCloneObject (heap c) (default_value c key) of
        None \<Rightarrow> (Inl CallStackExceeded, c)
      | Some (v, h1) \<Rightarrow>
          if v \<noteq> VUndefined \<and> v \<noteq> VNull
          then (case set_item (c\<lparr>heap := h1\<rparr>) (VStr key) v of
                  (Inl e, c1) \<Rightarrow> (Inl e, c1)
                | (Inr u, c1) \<Rightarrow> reset c1 keys)
          else reset (c\<lparr>heap := h1\<rparr>) keys)"

definition delete :: "conf \<Rightarrow> string \<Rightarrow> unit result" where
  "delete c key =
     (case get_store c of
        (Inl e, c1) \<Rightarrow> (Inl e, c1)
      | (Inr store, c1) \<Rightarrow>
          (case deleteProperty (heap c1) store key of
             (Some e, h2) \<Rightarrow> (Inl (AccessorError e), c1\<lparr>heap := h2\<rparr>)
           | (None, h2) \<Rightarrow> set_store (c1\<lparr>heap := h2\<rparr>) store))"

definition clear :: "conf \<Rightarrow> unit result" where
  "clear c =
     (let (v, h1) = createPlainObject (heap c)
      in (case set_store (c\<lparr>heap := h1\<rparr>) v of
            (Inl e, c1) \<Rightarrow> (Inl e, c1)
          | (Inr u, c1) \<Rightarrow> reset c1 (map fst (defaultValues c1))))"

subsection \<open>Subscriptions\<close>

text \<open>
  \<open>handleChange\<close>: take the current value, add the listener; the result identifies the
  subscription and stands for the function that removes it.
\<close>

definition handleChange :: "conf \<Rightarrow> selector \<Rightarrow> nat result" where
  "handleChange c sel =
     (case run_getter c sel of
        (Inl e, c1) \<Rightarrow> (Inl e, c1)
      | (Inr currentValue, c1) \<Rightarrow>
          (Inr (next_listener c1),
           c1\<lparr>listeners := listeners c1 @ [(next_listener c1, sel, currentValue)],
              next_listener := Suc (next_listener c1)\<rparr>))"

definition onDidChange :: "conf \<Rightarrow> string \<Rightarrow> nat result" where
  "onDidChange c key = handleChange c (AtKey key)"

definition onDidAnyChange :: "conf \<Rightarrow> nat result" where
  "onDidAnyChange c = handleChange c WholeStore"

definition unsubscribe :: "conf \<Rightarrow> nat \<Rightarrow> conf" where
  "unsubscribe c i = c\<lparr>listeners := AList.delete i (listeners c)\<rparr>"

subsection \<open>Migrations and construction\<close>

record migration =
  version :: int
  hook :: "conf \<Rightarrow> val \<Rightarrow> unit result"

text \<open>
  \<open>m.version > version\<close> where \<open>version\<close> was read from the document: a number compares as it
  is, \<open>null\<close> and booleans as 0 and 1, anything else is not a number and no comparison with it
  holds. (The declared type of the recorded version is \<open>number\<close>; numeric strings are not
  converted here.)
\<close>

definition to_number :: "val \<Rightarrow> int option" where
  "to_number v =
     (case v of
        VNum n \<Rightarrow> Some n
      | VNull \<Rightarrow> Some 0
      | VBool b \<Rightarrow> Some (if b then 1 else 0)
      | _ \<Rightarrow> None)"

definition version_gt :: "int \<Rightarrow> val \<Rightarrow> bool" where
  "version_gt n v = (case to_number v of None \<Rightarrow> False | Some k \<Rightarrow> k < n)"

text \<open>The body of the \<open>for\<close> loop of \<open>migrate\<close>, with the variable \<open>version\<close> as an argument.\<close>

fun migrate_loop :: "conf \<Rightarrow> val \<Rightarrow> migration list \<Rightarrow> unit result" where
  "migrate_loop c ver [] = (Inr (), c)"
| "migrate_loop c ver (m # ms) =
     (case hook m c ver of
        (Inl e, c1) \<Rightarrow> (Inl e, c1)
      | (Inr u, c1) \<Rightarrow>
          (case get_store c1 of
             (Inl e, c2) \<Rightarrow> (Inl e, c2)
           | (Inr store, c2) \<Rightarrow>
               (case setProperty (heap c2) store MIGRATION_KEY (VNum (version m)) of
                  (Some e, h3) \<Rightarrow> (Inl (AccessorError e), c2\<lparr>heap := h3\<rparr>)
                | (None, h3) \<Rightarrow>
                    (case set_store (c2\<lparr>heap := h3\<rparr>) store of
                       (Inl e, c3) \<Rightarrow> (Inl e, c3)
                     | (Inr u', c3) \<Rightarrow> migrate_loop c3 (VNum (version m)) ms))))"

text \<open>
  \<open>migrate\<close>: \<open>Array.prototype.sort\<close> with the comparator \<open>a.version - b.version\<close> is a stable
  ascending sort.
\<close>

definition migrate :: "conf \<Rightarrow> migration list option \<Rightarrow> unit result" where
  "migrate c migrations =
     (case migrations of
        None \<Rightarrow> (Inr (), c)
      | Some ms \<Rightarrow>
          if ms = [] then (Inr (), c)
          else (case get c MIGRATION_KEY (VNum 0) of
                  (Inl e, c1) \<Rightarrow> (Inl e, c1)
                | (Inr ver, c1) \<Rightarrow>
                    migrate_loop c1 ver
                      (filter (\<lambda>m. version_gt (version m) ver) (sort_key version ms))))"

text \<open>JavaScript truthiness, for \<open>if (defaults)\<close>.\<close>

definition truthy :: "val \<Rightarrow> bool" where
  "truthy v =
     (case v of
        VUndefined \<Rightarrow> False
      | VNull \<Rightarrow> False
      | VBool b \<Rightarrow> b
      | VNum n \<Rightarrow> n \<noteq> 0
      | VStr s \<Rightarrow> s \<noteq> []
      | _ \<Rightarrow> True)"

text \<open>The block \<open>if (defaults) { ... }\<close> of the constructor (lines 89 to 98).\<close>

definition apply_defaults :: "conf \<Rightarrow> val \<Rightarrow> val \<Rightarrow> unit result" where
  "apply_defaults c fileStore defaults =
     (if \<not> truthy defaults then (Inr (), c)
      else (let c1 = c\<lparr>defaultValues := assign_props [] (own_props (heap c) defaults)\<rparr>
            in (case deepCloneObject (heap c1) defaults of
                  None \<Rightarrow> (Inl CallStackExceeded, c1)
                | Some (cloned, h1) \<Rightarrow>
                    (let (store, h2) = mergeObject h1 [cloned, fileStore];
                         c2 = c1\<lparr>heap := h2\<rparr>
                     in if \<not> validate c2 store then (Inl SchemaViolation, c2)
                        else if \<not> deepEqual (heap c2) fileStore store then set_store c2 store
                        else (Inr (), c2)))))"

text \<open>
  The options of the constructor that the engine acts on: the compiled schema, \<open>defaults\<close>
  (\<open>undefined\<close> when not given) and \<open>migrations\<close>. \<open>dir\<close>, \<open>name\<close> and \<open>ext\<close> only name the file,
  and a custom serializer is not represented.
\<close>

record options =
  opt_schema :: "(heap \<Rightarrow> val \<Rightarrow> bool) option"
  opt_defaults :: val
  opt_migrations :: "migration list option"

text \<open>
  The constructor, started in a world \<open>w\<close> (its heap, file and file system): the fields of the
  new instance are initialised, the file is read, the defaults are merged, the migrations run.
\<close>

definition new_conf :: "conf \<Rightarrow> options \<Rightarrow> unit result" where
  "new_conf w opts =
     (let c0 = w\<lparr>store_cache := None, defaultValues := [], validator := opt_schema opts,
                 listeners := [], calls := []\<rparr>
      in (case get_store c0 of
            (Inl e, c1) \<Rightarrow> (Inl e, c1)
          | (Inr fileStore, c1) \<Rightarrow>
              (case apply_defaults c1 fileStore (opt_defaults opts) of
                 (Inl e, c2) \<Rightarrow> (Inl e, c2)
               | (Inr u, c2) \<Rightarrow> migrate c2 (opt_migrations opts))))"

section \<open>Well-formed heaps\<close>

text \<open>
  Three properties of the heaps a JavaScript program can build, as executable predicates:
  an object has each key once (\<open>keys_distinct\<close>); a reference points to an object that exists
  (\<open>refs_closed\<close>); no property of any object refers to the object \<open>a\<close> (\<open>noref\<close>), which is
  how the engine keeps the cached top-level object to itself.
\<close>

definition keys_distinct :: "heap \<Rightarrow> bool" where
  "keys_distinct h = list_all (\<lambda>ob. distinct (map fst (props ob))) h"

definition cell_distinct :: "heap \<Rightarrow> addr \<Rightarrow> bool" where
  "cell_distinct h x =
     (case cell_at h x of None \<Rightarrow> False | Some ob \<Rightarrow> distinct (map fst (props ob)))"

definition refs_closed :: "heap \<Rightarrow> bool" where
  "refs_closed h =
     list_all (\<lambda>ob. list_all (\<lambda>(k, v). (case v of VObj b \<Rightarrow> b < length h | _ \<Rightarrow> True)) (props ob)) h"

definition noref :: "heap \<Rightarrow> addr \<Rightarrow> bool" where
  "noref h a = list_all (\<lambda>ob. list_all (\<lambda>(k, v). v \<noteq> VObj a) (props ob)) h"


text \<open>
  The one object that existed before and that \<open>set_loop h a ss v\<close> writes to: the last object
  on the path \<open>ss\<close> from \<open>a\<close> that exists already.
\<close>

fun target :: "heap \<Rightarrow> addr \<Rightarrow> segment list \<Rightarrow> addr" where
  "target h a [] = a"
| "target h a [s] = a"
| "target h a (s # s' # ss) =
     (case child h a (key_of s) of Some b \<Rightarrow> target h b (s' # ss) | None \<Rightarrow> a)"

text \<open>
  A segment that \<open>isStringIndex\<close> never takes for the index of an array: a number, or a name
  that \<open>parseInt\<close> does not read as an integer.
\<close>

definition seg_ok :: "segment \<Rightarrow> bool" where
  "seg_ok s = (numeric s \<or> parseInt (key_of s) = None)"


text \<open>Code of the caller that assigns \<open>ref[key] = value\<close> on a reference it was given.\<close>

definition caller_assign :: "conf \<Rightarrow> val \<Rightarrow> string \<Rightarrow> val \<Rightarrow> conf" where
  "caller_assign c ref key v =
     (case ref of VObj a \<Rightarrow> c\<lparr>heap := set_prop (heap c) a key v\<rparr> | _ \<Rightarrow> c)"

text \<open>Code of the caller that executes \<open>delete ref[key]\<close>.\<close>

definition caller_delete :: "conf \<Rightarrow> val \<Rightarrow> string \<Rightarrow> conf" where
  "caller_delete c ref key =
     (case ref of VObj a \<Rightarrow> c\<lparr>heap := del_prop (heap c) a key\<rparr> | _ \<Rightarrow> c)"

text \<open>
  A key whose path does not begin at \<open>__internal__\<close>: the accessor parses it into segments the
  first of which is another name, or into none, or rejects it.
\<close>

definition outside_namespace :: "string \<Rightarrow> bool" where
  "outside_namespace k =
     (case getPathSegments k of
        Inl e \<Rightarrow> True
      | Inr [] \<Rightarrow> True
      | Inr (s # ss) \<Rightarrow> key_of s \<noteq> INTERNAL_KEY)"

text \<open>The object \<open>x\<close> has a property whose value is the object \<open>b\<close>.\<close>

definition refers :: "heap \<Rightarrow> addr \<Rightarrow> addr \<Rightarrow> bool" where
  "refers h x b =
     (case cell_at h x of
        None \<Rightarrow> False
      | Some ob \<Rightarrow> list_ex (\<lambda>(k, w). w = VObj b) (props ob))"

text \<open>
  The namespace object \<open>b\<close> is kept apart: it is an object and not a function, and an object
  that refers to it does so under the key \<open>__internal__\<close> only, has no prototype and is itself
  referred to by no object. These are the top level of the cached document and the copies of
  it that \<open>store\<close> has returned, as long as the caller has stored neither them nor the namespace
  object in an object of its own.
\<close>

definition namespace_private :: "heap \<Rightarrow> addr \<Rightarrow> bool" where
  "namespace_private h b =
     ((case cell_at h b of None \<Rightarrow> False | Some nb \<Rightarrow> kind nb \<noteq> Function) \<and>
      list_all (\<lambda>x.
          list_all (\<lambda>(k, w). if w = VObj b
                                 then k = INTERNAL_KEY \<and> kind (h ! x) = NullProto \<and> noref h x
                                 else True)
            (props (h ! x)))
        [0..<length h])"

text \<open>
  The engine's bookkeeping is in place: the top level of the cached document has each key
  once, its \<open>__internal__\<close> is the object \<open>b\<close>, whose content is \<open>nb\<close>; every reference of the
  heap points to an object, and \<open>b\<close> is kept apart.
\<close>

definition bookkeeping :: "conf \<Rightarrow> addr \<Rightarrow> obj \<Rightarrow> bool" where
  "bookkeeping c b nb =
     (case store_cache c of
        None \<Rightarrow> False
      | Some a \<Rightarrow>
          cell_distinct (heap c) a \<and> get_prop (heap c) a INTERNAL_KEY = VObj b \<and>
          cell_at (heap c) b = Some nb \<and> refs_closed (heap c) \<and> namespace_private (heap c) b)"

text \<open>The migration version that the namespace object \<open>nb\<close> records.\<close>

definition recorded_version :: "obj \<Rightarrow> val" where
  "recorded_version nb =
     (case map_of (props nb) ''migrationVersion'' of None \<Rightarrow> VUndefined | Some w \<Rightarrow> w)"

text \<open>
  A value that may be written without giving away the namespace: not a reference to no object,
  not the namespace object \<open>b\<close> and not an object that refers to it.
\<close>

definition value_ok :: "heap \<Rightarrow> addr \<Rightarrow> val \<Rightarrow> bool" where
  "value_ok h b v = (case v of VObj x \<Rightarrow> x < length h \<and> x \<noteq> b \<and> \<not> refers h x b | _ \<Rightarrow> True)"

text \<open>A value that is not a reference to no object.\<close>

definition value_closed :: "heap \<Rightarrow> val \<Rightarrow> bool" where
  "value_closed h v = (case v of VObj x \<Rightarrow> x < length h | _ \<Rightarrow> True)"

text \<open>
  What every step of the engine keeps when it goes from the heap \<open>h\<close> to the heap \<open>h'\<close>: the
  objects stay, references point to objects, \<open>b\<close> is kept apart and has the content it had, an
  object whose \<open>__internal__\<close> was \<open>b\<close> still has it, and no object that existed has begun to
  refer to \<open>b\<close>.
\<close>

definition keeps :: "heap \<Rightarrow> heap \<Rightarrow> addr \<Rightarrow> bool" where
  "keeps h h' b =
     (length h \<le> length h' \<and> refs_closed h' \<and> namespace_private h' b \<and>
      cell_at h' b = cell_at h b \<and>
      (\<forall>x. get_prop h x INTERNAL_KEY = VObj b \<longrightarrow> get_prop h' x INTERNAL_KEY = VObj b) \<and>
      (\<forall>x < length h. refers h' x b \<longrightarrow> refers h x b))"

section \<open>The migration algorithm as the specification words it\<close>

text \<open>
  Section 4.3: the migrations to apply are those whose version is strictly greater than the
  recorded version \<open>v\<close>, in ascending order of version.
\<close>

definition pending_migrations :: "int \<Rightarrow> migration list \<Rightarrow> migration list" where
  "pending_migrations v ms = sort_key version (filter (\<lambda>m. v < version m) ms)"

text \<open>
  The version in effect before each migration of a list: the recorded version before the
  first, the version of the migration before it for every other.
\<close>

fun versions_before :: "val \<Rightarrow> migration list \<Rightarrow> val list" where
  "versions_before ver [] = []"
| "versions_before ver (m # ms) = ver # versions_before (VNum (version m)) ms"

text \<open>
  One migration: invoke its hook with the store instance and the version before it; after the
  hook returns, read the current store, set \<open>__internal__.migrationVersion\<close> to the migration's
  version and write the store back through the setter (validate, persist, notify).
\<close>

definition migration_step :: "conf \<Rightarrow> val \<Rightarrow> migration \<Rightarrow> unit result" where
  "migration_step c before m =
     (case hook m c before of
        (Inl e, c1) \<Rightarrow> (Inl e, c1)
      | (Inr u, c1) \<Rightarrow>
          (case get_store c1 of
             (Inl e, c2) \<Rightarrow> (Inl e, c2)
           | (Inr store, c2) \<Rightarrow>
               (case setProperty (heap c2) store MIGRATION_KEY (VNum (version m)) of
                  (Some e, h3) \<Rightarrow> (Inl (AccessorError e), c2\<lparr>heap := h3\<rparr>)
                | (None, h3) \<Rightarrow> set_store (c2\<lparr>heap := h3\<rparr>) store)))"

fun run_steps :: "conf \<Rightarrow> (val \<times> migration) list \<Rightarrow> unit result" where
  "run_steps c [] = (Inr (), c)"
| "run_steps c ((before, m) # steps) =
     (case migration_step c before m of
        (Inl e, c1) \<Rightarrow> (Inl e, c1)
      | (Inr u, c1) \<Rightarrow> run_steps c1 steps)"

section \<open>Worked inputs\<close>

text \<open>
  The schema of \<open>test/basic.test.ts\<close> as the validator Ajv compiles from it: \<open>foo\<close> is absent,
  \<open>null\<close> or a string of at most 10 characters; \<open>bar\<close> is absent, \<open>null\<close> or an object whose
  \<open>baz\<close> is absent, \<open>null\<close> or a number of at most 99.
\<close>

definition test_schema :: "heap \<Rightarrow> val \<Rightarrow> bool" where
  "test_schema h v =
     (isObject h v \<and>
      (case prop_of h v ''foo'' of
         VUndefined \<Rightarrow> True | VNull \<Rightarrow> True | VStr s \<Rightarrow> length s \<le> 10 | _ \<Rightarrow> False) \<and>
      (case prop_of h v ''bar'' of
         VUndefined \<Rightarrow> True | VNull \<Rightarrow> True
       | VObj b \<Rightarrow>
           (case prop_of h (VObj b) ''baz'' of
              VUndefined \<Rightarrow> True | VNull \<Rightarrow> True | VNum n \<Rightarrow> n \<le> 99 | _ \<Rightarrow> False)
       | _ \<Rightarrow> False))"

text \<open>A world with the objects \<open>h\<close>, the file content \<open>f\<close>, no \<open>SNAP\<close> and a working disk.\<close>

definition world :: "heap \<Rightarrow> json option \<Rightarrow> conf" where
  "world h f = \<lparr>heap = h, store_cache = None, defaultValues = [], validator = None,
     file_content = f, env_SNAP = None, atomic_error = None, direct_error = None,
     fs_calls = [], listeners = [], next_listener = 0, calls = []\<rparr>"

definition no_options :: options where
  "no_options = \<lparr>opt_schema = None, opt_defaults = VUndefined, opt_migrations = None\<rparr>"

text \<open>\<open>new BaseConf({ schema })\<close> over a file that holds \<open>{ "bar": { "baz": 1 } }\<close>.\<close>

definition c_schema :: conf where
  "c_schema = snd (new_conf (world [] (Some (JObj [(''bar'', JObj [(''baz'', JNum 1)])])))
      (no_options\<lparr>opt_schema := Some test_schema\<rparr>))"

text \<open>\<open>new BaseConf()\<close> over the same file.\<close>

definition c_plain :: conf where
  "c_plain = snd (new_conf (world [] (Some (JObj [(''bar'', JObj [(''baz'', JNum 1)])]))) no_options)"

text \<open>\<open>new BaseConf()\<close> over a file that holds \<open>{ "list": [10] }\<close>.\<close>

definition c_list :: conf where
  "c_list = snd (new_conf (world [] (Some (JObj [(''list'', JArr [JNum 10])]))) no_options)"

text \<open>The migrations of the test suite: version 1 sets \<open>foo\<close>, version 2 sets \<open>bar.baz\<close>.\<close>

definition migration1 :: migration where
  "migration1 = \<lparr>version = 1, hook = (\<lambda>c ver. set_item c (VStr ''foo'') (VStr ''foo''))\<rparr>"

definition migration2 :: migration where
  "migration2 = \<lparr>version = 2, hook = (\<lambda>c ver. set_item c (VStr ''bar.baz'') (VNum 0))\<rparr>"

text \<open>
  \<open>new BaseConf({ defaults: { foo: 'bar' }, migrations: [migration1] })\<close> where no file exists:
  afterwards the document is \<open>{ foo: 'foo', __internal__: { migrationVersion: 1 } }\<close>.
\<close>

definition c_migrated :: conf where
  "c_migrated = snd (new_conf (world [Obj Plain [(''foo'', VStr ''bar'')]] None)
      (no_options\<lparr>opt_defaults := VObj 0, opt_migrations := Some [migration1]\<rparr>))"

text \<open>A document \<open>{ foo: 'x' }\<close> about to be written, under a given \<open>SNAP\<close> and disk.\<close>

definition c_disk :: "string option \<Rightarrow> string option \<Rightarrow> conf" where
  "c_disk snap err =
     (world [Obj NullProto [(''foo'', VStr ''x'')]] None)\<lparr>env_SNAP := snap, atomic_error := err\<rparr>"

text \<open>
  The same store after the caller has built the mapping
  \<open>{ a: 1, __internal__: { migrationVersion: 99 } }\<close> (object 9, its inner object 8).
\<close>

definition c_bulk :: conf where
  "c_bulk = c_migrated\<lparr>heap := heap c_migrated @
      [Obj Plain [(''migrationVersion'', VNum 99)],
       Obj Plain [(''a'', VNum 1), (INTERNAL_KEY, VObj 8)]]\<rparr>"

text \<open>
  The same store after the caller has built the mapping
  \<open>{ a: undefined, __internal__: { migrationVersion: 99 } }\<close> (object 9, its inner object 8).
\<close>

definition c_bulk_undefined :: conf where
  "c_bulk_undefined = c_migrated\<lparr>heap := heap c_migrated @
      [Obj Plain [(''migrationVersion'', VNum 99)],
       Obj Plain [(''a'', VUndefined), (INTERNAL_KEY, VObj 8)]]\<rparr>"

section \<open>Lemmas about the heap and the path accessor\<close>

subsection \<open>Cells and heap extension\<close>

lemma cell_at_set_prop:
  "cell_at (set_prop h a k v) x =
     (if x = a then map_option (\<lambda>ob. Obj (kind ob) (AList.update k v (props ob))) (cell_at h a)
      else cell_at h x)"
  by (auto simp: cell_at_def set_prop_def)

lemma cell_at_del_prop:
  "cell_at (del_prop h a k) x =
     (if x = a then map_option (\<lambda>ob. Obj (kind ob) (AList.delete k (props ob))) (cell_at h a)
      else cell_at h x)"
  by (auto simp: cell_at_def del_prop_def)

lemma cell_at_append:
  "cell_at (h @ [ob]) x = (if x = length h then Some ob else cell_at h x)"
  by (auto simp: cell_at_def nth_append)

lemma cell_at_Some_iff: "(cell_at h a = Some ob) = (a < length h \<and> h ! a = ob)"
  by (auto simp: cell_at_def)

lemma cell_at_None_iff: "(cell_at h a = None) = (\<not> a < length h)"
  by (auto simp: cell_at_def)

lemma prefix_cell_at: "prefix h h' \<Longrightarrow> a < length h \<Longrightarrow> cell_at h' a = cell_at h a"
  by (auto simp: prefix_def cell_at_def nth_append)

lemma prefix_length: "prefix h h' \<Longrightarrow> length h \<le> length h'"
  by (auto simp: prefix_def)

lemma prefix_get_prop: "prefix h h' \<Longrightarrow> a < length h \<Longrightarrow> get_prop h' a k = get_prop h a k"
  by (simp add: get_prop_def prefix_cell_at)

lemma prefix_has_own: "prefix h h' \<Longrightarrow> a < length h \<Longrightarrow> has_own h' a k = has_own h a k"
  by (simp add: has_own_def prefix_cell_at)

lemma prefix_own_props:
  "prefix h h' \<Longrightarrow> a < length h \<Longrightarrow> own_props h' (VObj a) = own_props h (VObj a)"
  by (simp add: own_props_def prefix_cell_at)

lemma length_set_prop [simp]: "length (set_prop h a k v) = length h"
  by (simp add: set_prop_def cell_at_def)

lemma length_del_prop [simp]: "length (del_prop h a k) = length h"
  by (simp add: del_prop_def cell_at_def)

lemma get_prop_set_prop:
  "get_prop (set_prop h a k v) x k' =
     (if x = a \<and> k' = k \<and> a < length h then v else get_prop h x k')"
  by (auto simp: get_prop_def set_prop_def cell_at_def update_conv' nth_list_update)

lemma has_own_set_prop: "has_own h x k' \<Longrightarrow> has_own (set_prop h a k v) x k'"
  by (cases "cell_at h a") (auto simp: has_own_def cell_at_set_prop update_conv')

lemma get_prop_append:
  "get_prop (h @ [ob]) x k =
     (if x = length h then (case map_of (props ob) k of None \<Rightarrow> VUndefined | Some v \<Rightarrow> v)
      else get_prop h x k)"
  by (simp add: get_prop_def cell_at_append)

lemma child_Some: "child h a k = Some b \<Longrightarrow> get_prop h a k = VObj b \<and> b < length h"
  by (auto simp: child_def isObject_def split: val.splits if_splits)

lemma child_None_fresh:
  "a < length h \<Longrightarrow>
   child (set_prop (h @ [Obj kd []]) a k (VObj (length h))) (length h) k' = None"
  by (simp add: child_def get_prop_set_prop get_prop_append)

subsection \<open>What \<open>set_loop\<close> leaves alone\<close>

lemma length_set_loop: "length h \<le> length (snd (set_loop h a ss v))"
proof (induction h a ss v rule: set_loop.induct)
  case (3 h a s s' ss v)
  show ?case
  proof (cases "isStringIndex h (VObj a) s")
    case True
    then show ?thesis by simp
  next
    case False
    show ?thesis
    proof (cases "child h a (key_of s)")
      case None
      from "3.IH"(1)[OF False None refl, of "length h" "h @ [Obj (if numeric s' then Array else Plain) []]"]
        None False
      show ?thesis by (simp add: alloc_def)
    next
      case (Some b)
      with "3.IH"(2)[OF False] False show ?thesis by simp
    qed
  qed
qed simp_all

lemma target_fresh:
  assumes "a < length h"
  shows "target (set_prop (h @ [Obj kd []]) a k (VObj (length h))) (length h) ss = length h"
proof (cases ss)
  case (Cons s ss')
  with assms show ?thesis by (cases ss') (simp_all add: child_None_fresh)
qed simp

lemma seg_ok_no_string_index: "seg_ok s \<Longrightarrow> \<not> isStringIndex h ob s"
  by (auto simp: seg_ok_def isStringIndex_def)


lemma set_loop_frame:
  "a < length h \<Longrightarrow> x < length h \<Longrightarrow> x \<noteq> target h a ss \<Longrightarrow>
   cell_at (snd (set_loop h a ss v)) x = cell_at h x"
proof (induction h a ss v rule: set_loop.induct)
  case (1 h a v)
  then show ?case by simp
next
  case (2 h a s v)
  then show ?case by (simp add: cell_at_set_prop)
next
  case (3 h a s s' ss v)
  show ?case
  proof (cases "isStringIndex h (VObj a) s")
    case True
    then show ?thesis by simp
  next
    case False
    show ?thesis
    proof (cases "child h a (key_of s)")
      case (Some b)
      with "3.prems" "3.IH"(2)[OF False Some] child_Some[OF Some] False show ?thesis by simp
    next
      case None
      let ?h1 = "h @ [Obj (if numeric s' then Array else Plain) []]"
      let ?h2 = "set_prop ?h1 a (key_of s) (VObj (length h))"
      have t: "target ?h2 (length h) (s' # ss) = length h"
        using "3.prems"(1) by (rule target_fresh)
      have xa: "x \<noteq> a" using "3.prems"(3) None by simp
      have h2x: "cell_at ?h2 x = cell_at h x"
        using "3.prems" xa by (auto simp: cell_at_set_prop cell_at_append)
      have "cell_at (snd (set_loop ?h2 (length h) (s' # ss) v)) x = cell_at ?h2 x"
        using "3.IH"(1)[OF False None refl, of "length h" ?h1] "3.prems" t by (simp add: alloc_def)
      with None False h2x show ?thesis by (simp add: alloc_def)
    qed
  qed
qed

subsection \<open>Acyclic documents\<close>










lemma get_loop_same_top:
  assumes "ss \<noteq> []" "\<And>k. prop_of h ob k = prop_of h ob' k" "isArray h ob = isArray h ob'"
  shows "get_loop h ob ss d = get_loop h ob' ss d"
proof -
  from assms(2,3) have "isStringIndex h ob s = isStringIndex h ob' s" for s
    by (simp add: isStringIndex_def cong: option.case_cong)
  with assms(1,2) show ?thesis by (cases ss) simp_all
qed

subsection \<open>Property lists\<close>

lemma set_update_subset: "set (AList.update k v al) \<subseteq> insert (k, v) (set al)"
  by (induction al) auto

lemma set_assign_props: "set (assign_props t s) \<subseteq> set t \<union> set s"
  unfolding assign_props_def
proof (induction s arbitrary: t)
  case (Cons p s)
  obtain k v where p: "p = (k, v)" by (cases p)
  from Cons.IH[of "AList.update k v t"] set_update_subset[of k v t] p show ?case by auto
qed simp

lemma distinct_assign_props:
  "distinct (map fst t) \<Longrightarrow> distinct (map fst (assign_props t s))"
  unfolding assign_props_def
  by (induction s arbitrary: t) (auto simp: AList.distinct_update)

lemma map_of_assign_props_distinct:
  "distinct (map fst s) \<Longrightarrow>
   map_of (assign_props t s) k = (case map_of s k of Some v \<Rightarrow> Some v | None \<Rightarrow> map_of t k)"
  unfolding assign_props_def
proof (induction s arbitrary: t)
  case (Cons p s)
  obtain k' v' where p: "p = (k', v')" by (cases p)
  from Cons.prems p have d: "distinct (map fst s)" and nk: "map_of s k' = None"
    by (auto simp: map_of_eq_None_iff)
  from Cons.IH[OF d, of "AList.update k' v' t"] p nk show ?case
    by (auto simp: update_conv' split: option.splits)
qed simp

subsection \<open>The store accessor\<close>

lemma get_store_cached:
  "store_cache c = Some a \<Longrightarrow>
   get_store c = (Inr (VObj (length (heap c))),
     c\<lparr>heap := heap c @ [Obj NullProto (assign_props [] (own_props (heap c) (VObj a)))]\<rparr>)"
  by (simp add: get_store_def cloneObject_def alloc_def)

lemma write_file_fields:
  "heap (snd (write_file c v)) = heap c"
  "store_cache (snd (write_file c v)) = store_cache c"
  "listeners (snd (write_file c v)) = listeners c"
  "validator (snd (write_file c v)) = validator c"
  "defaultValues (snd (write_file c v)) = defaultValues c"
  "calls (snd (write_file c v)) = calls c"
  by (auto simp: write_file_def direct_write_def atomic_write_def Let_def
      split: sres.splits option.splits prod.splits)

lemma onChange_cached:
  assumes "store_cache c = Some a"
  shows "store_cache (onChange c i sel) = Some a \<and> prefix (heap c) (heap (onChange c i sel))
    \<and> validator (onChange c i sel) = validator c
    \<and> defaultValues (onChange c i sel) = defaultValues c
    \<and> file_content (onChange c i sel) = file_content c"
  using assms
  by (cases sel)
     (auto simp: onChange_def run_getter_def get_def get_store_cached Let_def
       split: option.splits prod.splits sum.splits)

lemma fold_onChange_cached:
  "store_cache c = Some a \<Longrightarrow>
   store_cache (fold (\<lambda>(i, sel, cur) c'. onChange c' i sel) ls c) = Some a
   \<and> prefix (heap c) (heap (fold (\<lambda>(i, sel, cur) c'. onChange c' i sel) ls c))
   \<and> validator (fold (\<lambda>(i, sel, cur) c'. onChange c' i sel) ls c) = validator c
   \<and> defaultValues (fold (\<lambda>(i, sel, cur) c'. onChange c' i sel) ls c) = defaultValues c
   \<and> file_content (fold (\<lambda>(i, sel, cur) c'. onChange c' i sel) ls c) = file_content c"
proof (induction ls arbitrary: c)
  case (Cons l ls)
  obtain i sel cur where l: "l = (i, sel, cur)" by (cases l)
  from onChange_cached[OF Cons.prems, of i sel] Cons.IH[of "onChange c i sel"] l
  show ?case by (auto intro: prefix_order.trans)
qed simp

lemma dispatch_change_cached:
  "store_cache c = Some a \<Longrightarrow>
   store_cache (dispatch_change c) = Some a \<and> prefix (heap c) (heap (dispatch_change c))
   \<and> validator (dispatch_change c) = validator c
   \<and> defaultValues (dispatch_change c) = defaultValues c
   \<and> file_content (dispatch_change c) = file_content c"
  unfolding dispatch_change_def by (rule fold_onChange_cached)

lemma set_store_Inr:
  assumes "set_store c (VObj a) = (Inr u, c')"
  shows "store_cache c' = Some a \<and> prefix (heap c) (heap c')
    \<and> validator c' = validator c \<and> defaultValues c' = defaultValues c"
proof -
  from assms obtain c1 where w: "write_file c (VObj a) = (None, c1)"
    and c': "c' = dispatch_change (c1\<lparr>store_cache := Some a\<rparr>)"
    by (auto simp: set_store_def split: if_splits prod.splits option.splits)
  from w write_file_fields[of c "VObj a"] have "heap c1 = heap c" "validator c1 = validator c"
    "defaultValues c1 = defaultValues c" by simp_all
  with dispatch_change_cached[of "c1\<lparr>store_cache := Some a\<rparr>" a] c' show ?thesis by simp
qed

lemma set_store_Inl:
  assumes "set_store c v = (Inl e, c')"
  shows "store_cache c' = store_cache c \<and> heap c' = heap c
    \<and> validator c' = validator c \<and> defaultValues c' = defaultValues c"
  using assms write_file_fields[of c v]
  by (auto simp: set_store_def split: if_splits prod.splits option.splits)

lemma write_file_done:
  assumes "write_file c v = (None, c1)"
  obtains data where "JSON_stringify (heap c) v = SVal data" "file_content c1 = Some data"
  using assms
  by (auto simp: write_file_def direct_write_def atomic_write_def Let_def
      split: sres.splits option.splits prod.splits if_splits)

lemma set_store_persisted:
  assumes "set_store c (VObj a) = (Inr u, c')"
  obtains data where "JSON_stringify (heap c) (VObj a) = SVal data" "file_content c' = Some data"
proof -
  from assms obtain c1 where w: "write_file c (VObj a) = (None, c1)"
    and c': "c' = dispatch_change (c1\<lparr>store_cache := Some a\<rparr>)"
    by (auto simp: set_store_def split: if_splits prod.splits option.splits)
  from w obtain data where d: "JSON_stringify (heap c) (VObj a) = SVal data"
    "file_content c1 = Some data" by (rule write_file_done)
  from dispatch_change_cached[of "c1\<lparr>store_cache := Some a\<rparr>" a] c' d(2)
  have "file_content c' = Some data" by simp
  with d(1) show thesis by (rule that)
qed

lemma set_store_errors:
  assumes "set_store c v = (Inl e, c')"
  shows "e = SchemaViolation \<or> e = CircularStructure \<or> (\<exists>code. e = IOError code)"
  using assms
  by (auto simp: set_store_def write_file_def direct_write_def atomic_write_def Let_def
      split: if_splits prod.splits option.splits sres.splits)

lemma cell_distinct_set_prop: "cell_distinct h x \<Longrightarrow> cell_distinct (set_prop h a k v) x"
  by (auto simp: cell_distinct_def cell_at_set_prop AList.distinct_update split: option.splits)

lemma cell_distinct_append: "cell_distinct h x \<Longrightarrow> cell_distinct (h @ [ob]) x"
  by (auto simp: cell_distinct_def cell_at_append cell_at_Some_iff split: option.splits)

lemma cell_distinct_set_loop: "cell_distinct h x \<Longrightarrow> cell_distinct (snd (set_loop h a ss v)) x"
proof (induction h a ss v rule: set_loop.induct)
  case (3 h a s s' ss v)
  show ?case
  proof (cases "isStringIndex h (VObj a) s")
    case True
    with "3.prems" show ?thesis by simp
  next
    case False
    show ?thesis
    proof (cases "child h a (key_of s)")
      case None
      from "3.IH"(1)[OF False None refl, of "length h" "h @ [Obj (if numeric s' then Array else Plain) []]"]
        "3.prems" None False
      show ?thesis by (simp add: alloc_def cell_distinct_set_prop cell_distinct_append)
    next
      case (Some b)
      with "3.IH"(2)[OF False Some] "3.prems" False show ?thesis by simp
    qed
  qed
qed (simp_all add: cell_distinct_set_prop)

lemma cell_distinct_del_prop: "cell_distinct h x \<Longrightarrow> cell_distinct (del_prop h a k) x"
  by (auto simp: cell_distinct_def cell_at_del_prop AList.distinct_delete split: option.splits)

lemma cell_distinct_delete_loop: "cell_distinct h x \<Longrightarrow> cell_distinct (snd (delete_loop h a ss)) x"
  by (induction h a ss rule: delete_loop.induct)
     (auto simp: cell_distinct_del_prop split: option.splits)

lemma cell_distinct_prefix:
  assumes "prefix h h'" "cell_distinct h x"
  shows "cell_distinct h' x"
proof -
  from assms(2) have "x < length h"
    by (auto simp: cell_distinct_def cell_at_Some_iff split: option.splits)
  with assms show ?thesis by (simp add: cell_distinct_def prefix_cell_at)
qed




lemma update_absent: "k \<notin> fst ` set al \<Longrightarrow> AList.update k v al = al @ [(k, v)]"
  by (induction al) auto

lemma assign_props_append:
  "distinct (map fst (t @ s)) \<Longrightarrow> assign_props t s = t @ s"
  unfolding assign_props_def
proof (induction s arbitrary: t)
  case (Cons p s)
  obtain k v where p: "p = (k, v)" by (cases p)
  from Cons.prems p have "k \<notin> fst ` set t" by auto
  then have u: "AList.update k v t = t @ [(k, v)]" by (rule update_absent)
  from Cons.prems p have "distinct (map fst ((t @ [(k, v)]) @ s))" by auto
  from Cons.IH[OF this] u p show ?case by simp
qed simp

lemma keys_assign_props: "fst ` set (assign_props t s) = fst ` set t \<union> fst ` set s"
  unfolding assign_props_def
proof (induction s arbitrary: t)
  case (Cons p s)
  obtain k v where p: "p = (k, v)" by (cases p)
  have "fst ` set (AList.update k v t) = insert k (fst ` set t)"
    by (induction t) auto
  with Cons.IH[of "AList.update k v t"] p show ?case by auto
qed simp

section \<open>Persisting a document\<close>

text \<open>
  Claim C10, as amended. When \<open>SNAP\<close> is set to a non-empty string, \<open>write\<close> makes one direct
  write and never calls the atomic writer; what it returns or throws is what the direct write
  does. When \<open>SNAP\<close> is unset or empty it calls the atomic writer: on success the file has the
  new content; when that throws \<open>EXDEV\<close> the direct write follows; any other error is thrown
  again as it is, and the file is as it was.
\<close>

theorem write_file_snap_gate:
  assumes "JSON_stringify (heap c) v = SVal data"
  shows "(env_SNAP c = Some s \<and> s \<noteq> [] \<longrightarrow>
            fs_calls (snd (write_file c v)) = fs_calls c @ [DirectWrite data] \<and>
            fst (write_file c v) = map_option IOError (direct_error c) \<and>
            file_content (snd (write_file c v)) =
              (if direct_error c = None then Some data else file_content c))
       \<and> ((env_SNAP c = None \<or> env_SNAP c = Some []) \<longrightarrow>
            (atomic_error c = None \<longrightarrow>
               fs_calls (snd (write_file c v)) = fs_calls c @ [AtomicWrite data] \<and>
               fst (write_file c v) = None \<and>
               file_content (snd (write_file c v)) = Some data)
          \<and> (atomic_error c = Some ''EXDEV'' \<longrightarrow>
               fs_calls (snd (write_file c v)) = fs_calls c @ [AtomicWrite data, DirectWrite data] \<and>
               fst (write_file c v) = map_option IOError (direct_error c) \<and>
               file_content (snd (write_file c v)) =
                 (if direct_error c = None then Some data else file_content c))
          \<and> (atomic_error c = Some code \<and> code \<noteq> ''EXDEV'' \<longrightarrow>
               fs_calls (snd (write_file c v)) = fs_calls c @ [AtomicWrite data] \<and>
               fst (write_file c v) = Some (IOError code) \<and>
               file_content (snd (write_file c v)) = file_content c))"
  using assms
  by (auto simp: write_file_def snap_truthy_def direct_write_def atomic_write_def Let_def
      split: option.splits)

text \<open>
  The theorem at work: under \<open>SNAP=/snap/app/1\<close> a disk whose atomic writer would fail with
  \<open>EACCES\<close> is written directly; with \<open>SNAP\<close> unset, \<open>EXDEV\<close> is followed by the direct write
  and \<open>EACCES\<close> is thrown.
\<close>

theorem write_file_snap_gate_witness:
  "fs_calls (snd (write_file (c_disk (Some ''/snap/app/1'') (Some ''EACCES'')) (VObj 0)))
     = [DirectWrite (JObj [(''foo'', JStr ''x'')])]
   \<and> fst (write_file (c_disk (Some ''/snap/app/1'') (Some ''EACCES'')) (VObj 0)) = None
   \<and> fs_calls (snd (write_file (c_disk None (Some ''EXDEV'')) (VObj 0)))
     = [AtomicWrite (JObj [(''foo'', JStr ''x'')]), DirectWrite (JObj [(''foo'', JStr ''x'')])]
   \<and> fst (write_file (c_disk None (Some ''EACCES'')) (VObj 0)) = Some (IOError ''EACCES'')
   \<and> file_content (snd (write_file (c_disk None (Some ''EACCES'')) (VObj 0))) = None"
proof -
  let ?d = "JObj [(''foo'', JStr ''x'')]"
  have s: "JSON_stringify (heap (c_disk sn er)) (VObj 0) = SVal ?d" for sn er
    by (simp add: c_disk_def world_def JSON_stringify_def cell_at_def)
  have f: "env_SNAP (c_disk sn er) = sn" "atomic_error (c_disk sn er) = er"
    "direct_error (c_disk sn er) = None" "fs_calls (c_disk sn er) = []"
    "file_content (c_disk sn er) = None" for sn er
    by (simp_all add: c_disk_def world_def)
  show ?thesis
    using write_file_snap_gate [OF s, of "Some ''/snap/app/1''" "Some ''EACCES''" "''/snap/app/1''" "''EACCES''"]
      write_file_snap_gate [OF s, of None "Some ''EXDEV''" "[]" "''EXDEV''"]
      write_file_snap_gate [OF s, of None "Some ''EACCES''" "[]" "''EACCES''"]
    by (simp add: f)
qed

text \<open>
  Claim C10 as stated fails for a variable that is set but empty: \<open>SNAP=\<close> makes
  \<open>process.env.SNAP\<close> the empty string, which is falsy, and \<open>write\<close> takes the atomic path.
\<close>

theorem write_file_empty_SNAP_counterexample:
  "env_SNAP (c_disk (Some []) None) = Some []
   \<and> fs_calls (snd (write_file (c_disk (Some []) None) (VObj 0)))
       = [AtomicWrite (JObj [(''foo'', JStr ''x'')])]"
  by code_simp

subsection \<open>Deep copies only add objects\<close>

lemma take_set_prop: "take c (set_prop h c k v) = take c h"
  by (simp add: set_prop_def split: option.splits)

lemma dclone_prefix:
  shows "dclone n h v = Some (v', h') \<Longrightarrow> prefix h h'"
    and "dclone_props n h c ps = Some h'' \<Longrightarrow> c < length h \<Longrightarrow> prefix (take c h) h''"
proof (induction n h v and n h c ps arbitrary: v' h' and h'' rule: dclone_dclone_props.induct)
  case (7 n h a)
  show ?case
  proof (cases "cell_at h a")
    case None
    with "7.prems" show ?thesis by simp
  next
    case (Some ob)
    show ?thesis
    proof (cases "kind ob = Function")
      case True
      with "7.prems" Some show ?thesis by simp
    next
      case False
      with "7.prems" Some obtain m where n: "n = Suc m" by (cases n) auto
      let ?h1 = "h @ [Obj (if kind ob = Array then Array else Plain) []]"
      from "7.prems" Some False n have "dclone_props m ?h1 (length h) (props ob) = Some h'"
        by (auto simp: alloc_def split: option.splits)
      from "7.IH"[OF Some False n refl, of "length h" ?h1 h'] this
      show ?thesis by (simp add: alloc_def)
    qed
  qed
next
  case (8 n h s)
  then show ?case by (auto simp: alloc_def split: if_splits)
next
  case (10 n h c k v ps)
  from "10.prems"(1) obtain w h1 where d: "dclone n h v = Some (w, h1)"
    and rest: "dclone_props n (set_prop h1 c k w) c ps = Some h''"
    by (auto split: option.splits)
  from "10.IH"(1)[OF d] have p1: "prefix h h1" .
  then have c1: "c < length h1" using "10.prems"(2) by (auto dest: prefix_length)
  from "10.IH"(2)[OF d refl rest] c1 have "prefix (take c h1) h''"
    by (simp add: take_set_prop)
  moreover from p1 "10.prems"(2) have "take c h1 = take c h"
    by (auto simp: prefix_def)
  ultimately show ?case by simp
qed (simp_all add: take_is_prefix)

lemma deepCloneObject_prefix: "deepCloneObject h v = Some (v', h') \<Longrightarrow> prefix h h'"
  unfolding deepCloneObject_def by (rule dclone_prefix(1))

subsection \<open>The outcomes of \<open>set\<close>\<close>

lemma set_item_cases:
  assumes cache: "store_cache c = Some a"
  obtains (refused) e where "set_item c key v = (Inl e, c)"
      "e = KeyTypeError \<or> e = UseDeleteError \<or> e = NullKeyError \<or> e = ReservedKeyError"
  | (stopped) e h2 where
      "set_entries (heap c @ [Obj NullProto (assign_props [] (own_props (heap c) (VObj a)))])
         (VObj (length (heap c)))
         (case key of VStr s \<Rightarrow> [(s, v)]
          | _ \<Rightarrow> own_props (heap c @ [Obj NullProto (assign_props [] (own_props (heap c) (VObj a)))]) key)
        = (Some e, h2)"
      "set_item c key v = (Inl e, c\<lparr>heap := h2\<rparr>)"
      "\<not> containsReservedKey (heap c) key"
  | (commit) h2 where
      "set_entries (heap c @ [Obj NullProto (assign_props [] (own_props (heap c) (VObj a)))])
         (VObj (length (heap c)))
         (case key of VStr s \<Rightarrow> [(s, v)]
          | _ \<Rightarrow> own_props (heap c @ [Obj NullProto (assign_props [] (own_props (heap c) (VObj a)))]) key)
        = (None, h2)"
      "set_item c key v = set_store (c\<lparr>heap := h2\<rparr>) (VObj (length (heap c)))"
      "\<not> containsReservedKey (heap c) key"
proof -
  let ?h1 = "heap c @ [Obj NullProto (assign_props [] (own_props (heap c) (VObj a)))]"
  let ?es = "(case key of VStr s \<Rightarrow> [(s, v)] | _ \<Rightarrow> own_props ?h1 key)"
  obtain r h2 where se: "set_entries ?h1 (VObj (length (heap c))) ?es = (r, h2)"
    by (cases "set_entries ?h1 (VObj (length (heap c))) ?es")
  let ?A = "type_of (heap c) key \<noteq> ''string'' \<and> type_of (heap c) key \<noteq> ''object''"
  let ?B = "type_of (heap c) key \<noteq> ''object'' \<and> v = VUndefined"
  let ?D = "containsReservedKey (heap c) key"
  consider (a) ?A | (b) "\<not> ?A" ?B | (c) "\<not> ?A" "\<not> ?B" "key = VNull"
    | (d) "\<not> ?A" "\<not> ?B" "key \<noteq> VNull" ?D
    | (e) "\<not> ?A" "\<not> ?B" "key \<noteq> VNull" "\<not> ?D" by blast
  then show thesis
  proof cases
    case a
    then have "set_item c key v = (Inl KeyTypeError, c)" by (simp add: set_item_def)
    then show ?thesis by (rule refused) simp
  next
    case b
    then have "set_item c key v = (Inl UseDeleteError, c)" by (simp add: set_item_def)
    then show ?thesis by (rule refused) simp
  next
    case c
    then have "set_item c key v = (Inl NullKeyError, c)" by (simp add: set_item_def)
    then show ?thesis by (rule refused) simp
  next
    case d
    then have "set_item c key v = (Inl ReservedKeyError, c)" by (simp add: set_item_def)
    then show ?thesis by (rule refused) simp
  next
    case e
    with se have main: "set_item c key v =
        (case r of
           Some e \<Rightarrow> (Inl e, c\<lparr>heap := h2\<rparr>)
         | None \<Rightarrow> set_store (c\<lparr>heap := h2\<rparr>) (VObj (length (heap c))))"
      by (auto simp: set_item_def get_store_cached[OF cache] cong: val.case_cong
          split: option.splits)
    show ?thesis
    proof (cases r)
      case None
      with se main e(4) show ?thesis by (intro commit[of h2]) simp_all
    next
      case (Some err)
      with se main e(4) show ?thesis by (intro stopped[of err h2]) simp_all
    qed
  qed
qed

subsection \<open>References\<close>

lemma noref_iff:
  "noref h x = (\<forall>a ob k v. cell_at h a = Some ob \<longrightarrow> (k, v) \<in> set (props ob) \<longrightarrow> v \<noteq> VObj x)"
  by (fastforce simp: noref_def list_all_iff cell_at_Some_iff in_set_conv_nth)

lemma refs_closed_iff:
  "refs_closed h =
     (\<forall>a ob k b. cell_at h a = Some ob \<longrightarrow> (k, VObj b) \<in> set (props ob) \<longrightarrow> b < length h)"
proof
  assume rc: "refs_closed h"
  show "\<forall>a ob k b. cell_at h a = Some ob \<longrightarrow> (k, VObj b) \<in> set (props ob) \<longrightarrow> b < length h"
  proof (intro allI impI)
    fix a ob k b
    assume "cell_at h a = Some ob" "(k, VObj b) \<in> set (props ob)"
    then have "ob \<in> set h" by (auto simp: cell_at_Some_iff)
    with rc \<open>(k, VObj b) \<in> set (props ob)\<close> show "b < length h"
      by (fastforce simp: refs_closed_def list_all_iff)
  qed
next
  assume r: "\<forall>a ob k b. cell_at h a = Some ob \<longrightarrow> (k, VObj b) \<in> set (props ob) \<longrightarrow> b < length h"
  have "b < length h" if "ob \<in> set h" "(k, VObj b) \<in> set (props ob)" for ob k b
  proof -
    from that(1) obtain a where "a < length h" "h ! a = ob" by (auto simp: in_set_conv_nth)
    then have "cell_at h a = Some ob" by (simp add: cell_at_Some_iff)
    with r that(2) show ?thesis by blast
  qed
  then show "refs_closed h"
    by (auto simp: refs_closed_def list_all_iff split: val.splits)
qed

lemma refers_iff:
  "refers h x b = (\<exists>ob k. cell_at h x = Some ob \<and> (k, VObj b) \<in> set (props ob))"
  by (auto simp: refers_def list_ex_iff split: option.splits)

lemma namespace_private_iff:
  "namespace_private h b =
     ((\<exists>nb. cell_at h b = Some nb \<and> kind nb \<noteq> Function) \<and>
      (\<forall>x ob k. cell_at h x = Some ob \<longrightarrow> (k, VObj b) \<in> set (props ob) \<longrightarrow>
         k = INTERNAL_KEY \<and> kind ob = NullProto \<and> noref h x))"
proof -
  have "list_all (\<lambda>x. list_all (\<lambda>(k, w). if w = VObj b
            then k = INTERNAL_KEY \<and> kind (h ! x) = NullProto \<and> noref h x else True)
          (props (h ! x))) [0..<length h]
      = (\<forall>x ob k. cell_at h x = Some ob \<longrightarrow> (k, VObj b) \<in> set (props ob) \<longrightarrow>
           k = INTERNAL_KEY \<and> kind ob = NullProto \<and> noref h x)"
    by (fastforce simp: list_all_iff cell_at_Some_iff)
  then show ?thesis
    by (auto simp: namespace_private_def split: option.splits)
qed

lemma child_in_props:
  "child h a k = Some b \<Longrightarrow> \<exists>ob. cell_at h a = Some ob \<and> (k, VObj b) \<in> set (props ob)"
  by (auto simp: child_def get_prop_def split: val.splits option.splits if_splits dest: map_of_SomeD)

lemma child_noref: "noref h x \<Longrightarrow> child h a k = Some b \<Longrightarrow> b \<noteq> x"
  using child_in_props[of h a k b] by (auto simp: noref_iff)

lemma props_set_prop:
  assumes "cell_at (set_prop h a k v) x = Some ob" "(k', w) \<in> set (props ob)"
  shows "(x = a \<and> (k', w) = (k, v)) \<or> (\<exists>ob0. cell_at h x = Some ob0 \<and> kind ob0 = kind ob \<and> (k', w) \<in> set (props ob0))"
proof (cases "x = a")
  case False
  with assms show ?thesis by (auto simp: cell_at_set_prop)
next
  case True
  with assms(1) obtain ob0 where ob0: "cell_at h a = Some ob0"
    and ob: "ob = Obj (kind ob0) (AList.update k v (props ob0))"
    by (auto simp: cell_at_set_prop)
  from assms(2) ob set_update_subset[of k v "props ob0"]
  have "(k', w) = (k, v) \<or> (k', w) \<in> set (props ob0)" by auto
  with True ob0 ob show ?thesis by auto
qed

lemma set_delete_subset: "set (AList.delete k al) \<subseteq> set al"
  by (induction al) auto

lemma props_del_prop:
  assumes "cell_at (del_prop h a k) x = Some ob" "(k', w) \<in> set (props ob)"
  shows "\<exists>ob0. cell_at h x = Some ob0 \<and> kind ob0 = kind ob \<and> (k', w) \<in> set (props ob0)"
proof (cases "x = a")
  case False
  with assms show ?thesis by (auto simp: cell_at_del_prop)
next
  case True
  with assms(1) obtain ob0 where ob0: "cell_at h a = Some ob0"
    and ob: "ob = Obj (kind ob0) (AList.delete k (props ob0))"
    by (auto simp: cell_at_del_prop)
  from assms(2) ob set_delete_subset[of k "props ob0"] have "(k', w) \<in> set (props ob0)" by auto
  with True ob0 ob show ?thesis by auto
qed

lemma noref_set_prop: "noref h x \<Longrightarrow> v \<noteq> VObj x \<Longrightarrow> noref (set_prop h a k v) x"
  unfolding noref_iff using props_set_prop by blast

lemma noref_del_prop: "noref h x \<Longrightarrow> noref (del_prop h a k) x"
  unfolding noref_iff using props_del_prop by blast

lemma noref_append_empty: "noref h x \<Longrightarrow> noref (h @ [Obj kd []]) x"
  by (auto simp: noref_iff cell_at_append split: if_splits)

lemma props_clone:
  assumes "(k, v) \<in> set (assign_props [] (own_props h (VObj a)))"
  shows "\<exists>ob. cell_at h a = Some ob \<and> (k, v) \<in> set (props ob)"
proof -
  from assms set_assign_props[of "[]" "own_props h (VObj a)"]
  have "(k, v) \<in> set (own_props h (VObj a))" by auto
  then show ?thesis by (cases "cell_at h a") (auto simp: own_props_def)
qed

lemma noref_clone:
  assumes "noref h x"
  shows "noref (h @ [Obj kd (assign_props [] (own_props h (VObj a)))]) x"
  using assms props_clone[of _ _ h a]
  by (fastforce simp: noref_iff cell_at_append split: if_splits)

lemma refs_closed_noref_fresh: "refs_closed h \<Longrightarrow> noref h (length h)"
  by (fastforce simp: refs_closed_iff noref_iff)

lemma refs_closed_set_prop:
  "refs_closed h \<Longrightarrow> value_closed h v \<Longrightarrow> refs_closed (set_prop h a k v)"
  unfolding refs_closed_iff
proof (intro allI impI)
  fix x ob k' y
  assume rc: "\<forall>a ob k b. cell_at h a = Some ob \<longrightarrow> (k, VObj b) \<in> set (props ob) \<longrightarrow> b < length h"
    and v: "value_closed h v"
    and c: "cell_at (set_prop h a k v) x = Some ob" and m: "(k', VObj y) \<in> set (props ob)"
  from props_set_prop[OF c m] rc v show "y < length (set_prop h a k v)"
    by (auto simp: value_closed_def)
qed

lemma refs_closed_del_prop: "refs_closed h \<Longrightarrow> refs_closed (del_prop h a k)"
  unfolding refs_closed_iff using props_del_prop by (metis length_del_prop)

lemma refs_closed_append_empty: "refs_closed h \<Longrightarrow> refs_closed (h @ [Obj kd []])"
  by (fastforce simp: refs_closed_iff cell_at_append split: if_splits)

lemma refs_closed_clone:
  assumes "refs_closed h"
  shows "refs_closed (h @ [Obj kd (assign_props [] (own_props h (VObj a)))])"
  using assms props_clone[of _ _ h a]
  by (fastforce simp: refs_closed_iff cell_at_append split: if_splits)

subsection \<open>Writing below an object nothing refers to\<close>

lemma noref_set_loop:
  "noref h x \<Longrightarrow> v \<noteq> VObj x \<Longrightarrow> x < length h \<Longrightarrow> noref (snd (set_loop h a ss v)) x"
proof (induction h a ss v rule: set_loop.induct)
  case (3 h a s s' ss v)
  show ?case
  proof (cases "isStringIndex h (VObj a) s")
    case True
    with "3.prems" show ?thesis by simp
  next
    case False
    show ?thesis
    proof (cases "child h a (key_of s)")
      case (Some b)
      with "3.IH"(2)[OF False Some] "3.prems" False show ?thesis by simp
    next
      case None
      let ?h1 = "h @ [Obj (if numeric s' then Array else Plain) []]"
      let ?h2 = "set_prop ?h1 a (key_of s) (VObj (length h))"
      from "3.prems" have "noref ?h2 x"
        by (intro noref_set_prop noref_append_empty) auto
      with "3.IH"(1)[OF False None refl, of "length h" ?h1] "3.prems" None False
      show ?thesis by (simp add: alloc_def)
    qed
  qed
qed (simp_all add: noref_set_prop)

lemma target_noref: "noref h x \<Longrightarrow> a \<noteq> x \<Longrightarrow> target h a ss \<noteq> x"
proof (induction h a ss rule: target.induct)
  case (3 h a s s' ss)
  show ?case
  proof (cases "child h a (key_of s)")
    case (Some b)
    with "3.IH"[OF Some "3.prems"(1)] child_noref[OF "3.prems"(1) Some] show ?thesis by simp
  qed (use "3.prems" in simp)
qed simp_all

lemma set_loop_top:
  assumes a: "a < length h" and nr: "noref h a" and k0: "ss \<noteq> [] \<Longrightarrow> k0 \<noteq> key_of (hd ss)"
  shows "get_prop (snd (set_loop h a ss v)) a k0 = get_prop h a k0"
proof (cases ss)
  case Nil
  then show ?thesis by simp
next
  case (Cons s ss')
  show ?thesis
  proof (cases "isStringIndex h (VObj a) s")
    case True
    with Cons show ?thesis by (cases ss') simp_all
  next
    case False
    show ?thesis
    proof (cases ss')
      case Nil
      with Cons k0 False show ?thesis by (simp add: get_prop_set_prop)
    next
      case (Cons s' ss'')
      note ss = \<open>ss = s # ss'\<close> Cons
      show ?thesis
      proof (cases "child h a (key_of s)")
        case (Some b)
        from child_noref[OF nr Some] have "b \<noteq> a" .
        from target_noref[OF nr this] have "a \<noteq> target h b (s' # ss'')" by auto
        from set_loop_frame[OF _ a this, of v] child_Some[OF Some] Some ss False
        show ?thesis by (simp add: get_prop_def)
      next
        case None
        let ?h2 = "set_prop (h @ [Obj (if numeric s' then Array else Plain) []]) a (key_of s) (VObj (length h))"
        have t: "target ?h2 (length h) (s' # ss'') = length h"
          using a by (rule target_fresh)
        have "cell_at (snd (set_loop ?h2 (length h) (s' # ss'') v)) a = cell_at ?h2 a"
          using a t by (intro set_loop_frame) auto
        then have "get_prop (snd (set_loop ?h2 (length h) (s' # ss'') v)) a k0 = get_prop ?h2 a k0"
          by (simp add: get_prop_def)
        also have "\<dots> = get_prop h a k0"
          using k0 ss a by (simp add: get_prop_set_prop get_prop_append)
        finally show ?thesis using None ss False by (simp add: alloc_def)
      qed
    qed
  qed
qed

lemma getPathSegments_INTERNAL_KEY: "getPathSegments INTERNAL_KEY = Inr [Seg False INTERNAL_KEY]"
  by code_simp

lemma seg_ok_INTERNAL_KEY: "seg_ok (Seg False INTERNAL_KEY)"
  by code_simp

lemma setProperty_INTERNAL_KEY:
  "a < length h \<Longrightarrow> setProperty h (VObj a) INTERNAL_KEY v = (None, set_prop h a INTERNAL_KEY v)"
  using seg_ok_no_string_index[OF seg_ok_INTERNAL_KEY]
  by (simp add: setProperty_def isObject_def getPathSegments_INTERNAL_KEY)

lemma setProperty_outside:
  assumes "a < length h" "noref h a" "outside_namespace k"
  shows "get_prop (snd (setProperty h (VObj a) k v)) a INTERNAL_KEY = get_prop h a INTERNAL_KEY"
proof (cases "getPathSegments k")
  case (Inl e)
  with assms(1) show ?thesis by (simp add: setProperty_def isObject_def)
next
  case (Inr ss)
  from assms(3) Inr have "ss \<noteq> [] \<Longrightarrow> INTERNAL_KEY \<noteq> key_of (hd ss)"
    by (cases ss) (auto simp: outside_namespace_def)
  from set_loop_top[OF assms(1,2) this, of v] Inr assms(1) show ?thesis
    by (simp add: setProperty_def isObject_def)
qed

lemma length_setProperty: "length h \<le> length (snd (setProperty h ob k v))"
  by (auto simp: setProperty_def length_set_loop split: val.splits sum.splits)

lemma noref_setProperty:
  "noref h x \<Longrightarrow> v \<noteq> VObj x \<Longrightarrow> x < length h \<Longrightarrow> noref (snd (setProperty h ob k v)) x"
  by (auto simp: setProperty_def noref_set_loop split: val.splits sum.splits)

lemma set_entries_internal:
  assumes "set_entries h (VObj a) es = (None, h')"
    and "a < length h" and "noref h a"
    and "list_all (\<lambda>(k, v). v \<noteq> VObj a) es"
    and "distinct (map fst es)"
    and "list_all (\<lambda>(k, v). k = INTERNAL_KEY \<or> outside_namespace k) es"
  shows "get_prop h' a INTERNAL_KEY =
     (case map_of es INTERNAL_KEY of Some w \<Rightarrow> w | None \<Rightarrow> get_prop h a INTERNAL_KEY)"
  using assms
proof (induction es arbitrary: h)
  case Nil
  then show ?case by simp
next
  case (Cons e es)
  obtain k v where e: "e = (k, v)" by (cases e)
  obtain r h1 where sp: "setProperty h (VObj a) k v = (r, h1)"
    by (cases "setProperty h (VObj a) k v")
  from Cons.prems(1) e sp have r: "r = None" and rest: "set_entries h1 (VObj a) es = (None, h')"
    by (auto split: if_splits option.splits)
  from Cons.prems(4) e have v: "v \<noteq> VObj a" by simp
  have a1: "a < length h1" using Cons.prems(2) length_setProperty[of h "VObj a" k v] sp by simp
  have nr1: "noref h1 a"
    using noref_setProperty[OF Cons.prems(3) v Cons.prems(2), of "VObj a" k] sp by simp
  from Cons.prems e have IH: "get_prop h' a INTERNAL_KEY =
     (case map_of es INTERNAL_KEY of Some w \<Rightarrow> w | None \<Rightarrow> get_prop h1 a INTERNAL_KEY)"
    by (intro Cons.IH[OF rest a1 nr1]) simp_all
  show ?case
  proof (cases "k = INTERNAL_KEY")
    case True
    with Cons.prems(5) e have "map_of es INTERNAL_KEY = None"
      by (auto simp: map_of_eq_None_iff)
    moreover have "h1 = set_prop h a INTERNAL_KEY v"
      using True Cons.prems(2) sp by (simp add: setProperty_INTERNAL_KEY)
    then have "get_prop h1 a INTERNAL_KEY = v"
      using Cons.prems(2) by (simp add: get_prop_set_prop)
    ultimately show ?thesis using IH e True by simp
  next
    case False
    with Cons.prems(6) e have "outside_namespace k" by auto
    from setProperty_outside[OF Cons.prems(2,3) this, of v] sp IH e False show ?thesis
      by (simp split: option.splits)
  qed
qed

subsection \<open>Reading through the copy \<open>store\<close> returns\<close>

lemma get_loop_same_props:
  assumes "seg_ok s" "\<And>k. prop_of h ob k = prop_of h ob' k"
  shows "get_loop h ob (s # ss) d = get_loop h ob' (s # ss) d"
  using assms by (simp add: seg_ok_no_string_index)

lemma prop_of_clone:
  assumes cd: "cell_distinct h a"
  shows "prop_of (h @ [Obj kd (assign_props [] (own_props h (VObj a)))]) (VObj (length h)) k
       = prop_of (h @ [Obj kd (assign_props [] (own_props h (VObj a)))]) (VObj a) k"
proof -
  from cd have a: "a < length h"
    by (auto simp: cell_distinct_def cell_at_Some_iff split: option.splits)
  with cd show ?thesis
    by (simp add: prop_of_def get_prop_append own_props_def cell_distinct_def cell_at_def
        map_of_assign_props_distinct get_prop_def nth_append split: option.splits)
qed

lemma get_via_cache:
  assumes cache: "store_cache c = Some a" and cd: "cell_distinct (heap c) a"
    and key: "getPathSegments k = Inr (s # ss)" "seg_ok s"
  shows "get c k d =
     (Inr (get_loop (heap c @ [Obj NullProto (assign_props [] (own_props (heap c) (VObj a)))])
             (VObj a) (s # ss) d),
      c\<lparr>heap := heap c @ [Obj NullProto (assign_props [] (own_props (heap c) (VObj a)))]\<rparr>)"
proof -
  let ?h3 = "heap c @ [Obj NullProto (assign_props [] (own_props (heap c) (VObj a)))]"
  have "get_loop ?h3 (VObj (length (heap c))) (s # ss) d = get_loop ?h3 (VObj a) (s # ss) d"
    using key(2) prop_of_clone[OF cd] by (rule get_loop_same_props)
  then show ?thesis
    by (simp add: get_def get_store_cached[OF cache] getProperty_def isObject_def key(1))
qed

lemma cell_distinct_set_entries:
  "cell_distinct h x \<Longrightarrow> cell_distinct (snd (set_entries h store es)) x"
proof (induction h store es rule: set_entries.induct)
  case (2 h store key v es)
  show ?case
  proof (cases "List.member BAN_TYPES (type_of h v)")
    case True
    with "2.prems" show ?thesis by simp
  next
    case False
    obtain r h1 where sp: "setProperty h store key v = (r, h1)" by (cases "setProperty h store key v")
    have "cell_distinct (snd (setProperty h store key v)) x"
      using "2.prems"
      by (auto simp: setProperty_def cell_distinct_set_loop split: val.splits sum.splits)
    with sp have c1: "cell_distinct h1 x" by simp
    show ?thesis
    proof (cases r)
      case None
      with "2.IH"[OF False sp[symmetric] _ c1] sp False show ?thesis by simp
    next
      case (Some e)
      with sp False c1 show ?thesis by simp
    qed
  qed
qed simp

lemma set_entries_error:
  "set_entries h store es = (Some e, h') \<Longrightarrow>
   (\<exists>t k. e = BannedTypeError t k) \<or> (\<exists>pe. e = AccessorError pe)"
proof (induction h store es rule: set_entries.induct)
  case (2 h store key v es)
  then show ?case by (auto split: if_splits prod.splits option.splits)
qed simp

lemma cell_distinct_clone:
  "cell_distinct (h @ [Obj kd (assign_props [] ps)]) (length h)"
  by (simp add: cell_distinct_def cell_at_append distinct_assign_props)

section \<open>What the shared nested objects do\<close>

text \<open>
  \<open>set\<close> works on \<open>const { store } = this\<close>, a copy of the top level of the cached document. A
  key with more than one segment is written into a nested object, and that object is the one
  the cache holds. The three runs below start from documents the engine itself has built.
\<close>

text \<open>
  Claim C2 says that a \<open>set\<close> whose candidate document fails validation leaves the cached
  document as it was. The code does not: over \<open>{ bar: { baz: 1 } }\<close> and the schema of the
  test suite, \<open>set('bar.baz', 100)\<close> throws the schema violation and leaves the file alone,
  the cache still is the same object, yet \<open>get('bar.baz')\<close> now answers 100.
\<close>

theorem rejected_set_changes_cache:
  "fst (get c_schema ''bar.baz'' VUndefined) = Inr (VNum 1)
   \<and> fst (set_item c_schema (VStr ''bar.baz'') (VNum 100)) = Inl SchemaViolation
   \<and> file_content (snd (set_item c_schema (VStr ''bar.baz'') (VNum 100))) = file_content c_schema
   \<and> store_cache (snd (set_item c_schema (VStr ''bar.baz'') (VNum 100))) = store_cache c_schema
   \<and> fst (get (snd (set_item c_schema (VStr ''bar.baz'') (VNum 100))) ''bar.baz'' VUndefined)
       = Inr (VNum 100)"
  by code_simp

text \<open>
  The instance of claim C2 that the specification spells out holds: a value of 11 characters
  for the top-level key \<open>foo\<close> is rejected and \<open>foo\<close> keeps its value.
\<close>

lemma rejected_top_level_set_keeps_cache:
  "fst (set_item c_schema (VStr ''foo'') (VStr ''xxxxxxxxxxx'')) = Inl SchemaViolation
   \<and> file_content (snd (set_item c_schema (VStr ''foo'') (VStr ''xxxxxxxxxxx''))) = file_content c_schema
   \<and> fst (get (snd (set_item c_schema (VStr ''foo'') (VStr ''xxxxxxxxxxx''))) ''foo'' VUndefined)
       = fst (get c_schema ''foo'' VUndefined)"
  by code_simp

text \<open>
  Claim C7 says that a write which changes the observed value invokes the callback. The code
  does not when the change is inside a nested object: after \<open>onDidAnyChange(cb)\<close> over
  \<open>{ bar: { baz: 1 } }\<close>, \<open>set('bar.baz', 2)\<close> succeeds and the document on disk changes, but
  the value \<open>handleChange\<close> captured shares \<open>bar\<close> with the new document, \<open>deepEqual\<close> finds
  them equal and the callback is not called. The same holds for \<open>onDidChange('bar', cb)\<close>.
\<close>

theorem nested_write_not_notified:
  "file_content (snd (onDidAnyChange c_plain)) = Some (JObj [(''bar'', JObj [(''baz'', JNum 1)])])
   \<and> fst (set_item (snd (onDidAnyChange c_plain)) (VStr ''bar.baz'') (VNum 2)) = Inr ()
   \<and> file_content (snd (set_item (snd (onDidAnyChange c_plain)) (VStr ''bar.baz'') (VNum 2)))
       = Some (JObj [(''bar'', JObj [(''baz'', JNum 2)])])
   \<and> calls (snd (set_item (snd (onDidAnyChange c_plain)) (VStr ''bar.baz'') (VNum 2))) = []
   \<and> fst (set_item (snd (onDidChange c_plain ''bar'')) (VStr ''bar.baz'') (VNum 2)) = Inr ()
   \<and> calls (snd (set_item (snd (onDidChange c_plain ''bar'')) (VStr ''bar.baz'') (VNum 2))) = []"
  by code_simp

text \<open>
  The run claim C7 spells out does what it says: after \<open>onDidChange('foo', cb)\<close>, \<open>set('foo', 'x')\<close>
  calls \<open>cb('x', undefined)\<close>, \<open>delete('foo')\<close> calls \<open>cb(undefined, 'x')\<close>, and after the
  subscription is removed a further \<open>set\<close> calls nothing. A write that leaves a top-level value
  as it is calls nothing either.
\<close>

lemma onDidChange_run:
  "(case onDidChange c_plain ''foo'' of (i, c1) \<Rightarrow>
      (case set_item c1 (VStr ''foo'') (VStr ''x'') of (r2, c2) \<Rightarrow>
         (case delete c2 ''foo'' of (r3, c3) \<Rightarrow>
            (case set_item (unsubscribe c3 0) (VStr ''foo'') (VStr ''y'') of (r4, c4) \<Rightarrow>
               i = Inr 0 \<and> r2 = Inr () \<and> r3 = Inr () \<and> r4 = Inr ()
               \<and> calls c2 = [(0, VStr ''x'', VUndefined)]
               \<and> calls c3 = [(0, VStr ''x'', VUndefined), (0, VUndefined, VStr ''x'')]
               \<and> calls c4 = calls c3))))"
  by code_simp

lemma onDidAnyChange_run:
  "(case set_item c_plain (VStr ''foo'') (VStr ''x'') of (r1, c1) \<Rightarrow>
      (case onDidAnyChange c1 of (i, c2) \<Rightarrow>
         (case set_item c2 (VStr ''foo'') (VStr ''x'') of (r3, c3) \<Rightarrow>
            (case set_item c3 (VStr ''foo'') (VStr ''y'') of (r4, c4) \<Rightarrow>
               r3 = Inr () \<and> calls c3 = [] \<and> r4 = Inr () \<and> length (calls c4) = 1))))"
  by code_simp

text \<open>
  Claim C3 says that \<open>set\<close> throws for a string key equal to \<open>__internal__\<close>. The code does not:
  \<open>containsReservedKey\<close> compares the first key of a mapping with \<open>__internal__\<close>, but tests a
  string key only for the prefix \<open>__internal__.\<close>, so that \<open>set('__internal__', 5)\<close> returns and
  replaces the bookkeeping. The two calls the claim names do throw and leave the version.
\<close>

theorem reserved_string_key_accepted:
  "fst (get c_migrated MIGRATION_KEY VUndefined) = Inr (VNum 1)
   \<and> containsReservedKey (heap c_migrated) (VStr ''__internal__'') = False
   \<and> fst (set_item c_migrated (VStr ''__internal__'') (VNum 5)) = Inr ()
   \<and> fst (get (snd (set_item c_migrated (VStr ''__internal__'') (VNum 5))) INTERNAL_KEY VUndefined)
       = Inr (VNum 5)
   \<and> fst (get (snd (set_item c_migrated (VStr ''__internal__'') (VNum 5))) MIGRATION_KEY VUndefined)
       = Inr VUndefined"
  by code_simp

lemma reserved_key_guard_run:
  "fst (set_item c_migrated (VStr ''__internal__.migrationVersion'') (VNum 99)) = Inl ReservedKeyError
   \<and> fst (get (snd (set_item c_migrated (VStr ''__internal__.migrationVersion'') (VNum 99)))
            MIGRATION_KEY VUndefined) = Inr (VNum 1)
   \<and> (case alloc (heap c_migrated) (Obj Plain [(''__internal__'', VObj 0)]) of (m, h) \<Rightarrow>
         fst (set_item (c_migrated\<lparr>heap := h\<rparr>) (VObj m) VUndefined) = Inl ReservedKeyError
         \<and> fst (get (snd (set_item (c_migrated\<lparr>heap := h\<rparr>) (VObj m) VUndefined))
                  MIGRATION_KEY VUndefined) = Inr (VNum 1))"
  by code_simp

section \<open>Writing a value and reading it back\<close>

lemma type_of_append: "type_of (h @ [ob]) v = type_of h v \<or> (\<exists>a. v = VObj a \<and> \<not> a < length h)"
  by (cases v) (auto simp: type_of_def cell_at_append cell_at_Some_iff cell_at_None_iff split: option.splits)





text \<open>
  A segment that reads as an integer is refused on an array: over \<open>{ list: [10] }\<close>,
  \<open>set('list.0', 5)\<close> throws. With brackets the element is written and read.
\<close>

lemma string_index_run:
  "fst (set_item c_list (VStr ''list.0'') (VNum 5))
       = Inl (AccessorError (PathError ''Cannot use string index''))
   \<and> fst (set_item c_list (VStr ''list[0]'') (VNum 5)) = Inr ()
   \<and> fst (get (snd (set_item c_list (VStr ''list[0]'') (VNum 5))) ''list[0]'' VUndefined)
       = Inr (VNum 5)"
  by code_simp

section \<open>What a caller receives\<close>

text \<open>
  Claim C8, as amended. Once the document has been read, the \<open>store\<close> getter returns a new
  object without prototype that has the properties of the cached top-level object and is not
  that object: assigning to it or deleting from it changes no object that existed before, so
  the top level of the cached document cannot be changed through it. (The values of its
  properties are the cached document's own nested objects, and so are the values \<open>get\<close>
  returns: they are not copies.)
\<close>

theorem store_getter_copies_top_level:
  assumes cache: "store_cache c = Some a" and dist: "cell_distinct (heap c) a"
  shows "fst (get_store c) = Inr (VObj (length (heap c)))
     \<and> length (heap c) \<noteq> a
     \<and> store_cache (snd (get_store c)) = Some a
     \<and> kind (heap (snd (get_store c)) ! length (heap c)) = NullProto
     \<and> own_props (heap (snd (get_store c))) (VObj (length (heap c))) = own_props (heap c) (VObj a)
     \<and> (\<forall>x key v. x < length (heap c) \<longrightarrow>
           cell_at (heap (caller_assign (snd (get_store c)) (VObj (length (heap c))) key v)) x
             = cell_at (heap c) x
         \<and> cell_at (heap (caller_delete (snd (get_store c)) (VObj (length (heap c))) key)) x
             = cell_at (heap c) x)"
proof -
  from dist have a: "a < length (heap c)" and d: "distinct (map fst (props (heap c ! a)))"
    by (auto simp: cell_distinct_def cell_at_Some_iff split: option.splits)
  from d a have ps: "assign_props [] (own_props (heap c) (VObj a)) = own_props (heap c) (VObj a)"
    using assign_props_append[of "[]" "props (heap c ! a)"] by (simp add: own_props_def cell_at_def)
  show ?thesis
    using a ps cache
    by (auto simp: get_store_cached[OF cache] own_props_def cell_at_append caller_assign_def
        caller_delete_def cell_at_set_prop cell_at_del_prop)
qed

text \<open>The theorem at work on the store over \<open>{ bar: { baz: 1 } }\<close>.\<close>

theorem store_getter_copies_top_level_witness:
  "store_cache c_plain = Some 2 \<and> cell_distinct (heap c_plain) 2
   \<and> fst (get_store c_plain) = Inr (VObj 3)
   \<and> own_props (heap (snd (get_store c_plain))) (VObj 3) = [(''bar'', VObj 0)]
   \<and> cell_at (heap (caller_assign (snd (get_store c_plain)) (VObj 3) ''bar'' (VNum 0))) 2
       = cell_at (heap c_plain) 2"
proof -
  have h1: "store_cache c_plain = Some 2" by code_simp
  have h2: "cell_distinct (heap c_plain) 2" by code_simp
  have l: "length (heap c_plain) = 3" by code_simp
  have p: "own_props (heap c_plain) (VObj 2) = [(''bar'', VObj 0)]" by code_simp
  from store_getter_copies_top_level[OF h1 h2] h1 h2 l p show ?thesis by simp
qed

text \<open>
  Claim C8 as stated fails: the value \<open>get('bar')\<close> returns is the nested object of the cached
  document itself. A caller that assigns \<open>baz = 5\<close> on it changes what the engine answers, with
  no call of \<open>set\<close>, \<open>delete\<close> or \<open>clear\<close>; the same holds for \<open>conf.store.bar\<close>.
\<close>

theorem returned_object_is_live_counterexample:
  "fst (get c_plain ''bar.baz'' VUndefined) = Inr (VNum 1)
   \<and> fst (get c_plain ''bar'' VUndefined) = Inr (VObj 0)
   \<and> fst (get (caller_assign (snd (get c_plain ''bar'' VUndefined)) (VObj 0) ''baz'' (VNum 5))
            ''bar.baz'' VUndefined) = Inr (VNum 5)
   \<and> fst (get_store c_plain) = Inr (VObj 3)
   \<and> prop_of (heap (snd (get_store c_plain))) (VObj 3) ''bar'' = VObj 0
   \<and> fst (get (caller_assign (snd (get_store c_plain)) (VObj 0) ''baz'' (VNum 5))
            ''bar.baz'' VUndefined) = Inr (VNum 5)"
  by code_simp

section \<open>The reserved-key guard and mappings\<close>

text \<open>
  Claim C9, as amended. For a mapping, \<open>containsReservedKey\<close> answers yes exactly when the
  first enumerated key is \<open>__internal__\<close>, and then \<open>set\<close> throws and changes nothing. When the
  first key is another one, \<open>set\<close> is not refused by the guard, whatever keys follow: it throws
  only what a value of a banned type, the path accessor or the commit (schema, serializer,
  disk) throws, and otherwise returns, the new document being cached and written to the file.
  When it returns and \<open>__internal__\<close> is a later key of the mapping with value \<open>w\<close>, then the
  document's \<open>__internal__\<close> is \<open>w\<close> afterwards: the bookkeeping has been replaced. This last
  part is for a heap in which every reference points to an object and a mapping that has each
  key once and no other key whose path begins at \<open>__internal__\<close>.
\<close>

theorem bulk_set_reserved_key_later:
  assumes cache: "store_cache c = Some a"
    and mapping: "cell_at (heap c) m = Some (Obj kd ((k0, v0) # rest))" "kd \<noteq> Function"
  shows "containsReservedKey (heap c) (VObj m) = (k0 = INTERNAL_KEY)
     \<and> (k0 = INTERNAL_KEY \<longrightarrow> set_item c (VObj m) x = (Inl ReservedKeyError, c))
     \<and> (k0 \<noteq> INTERNAL_KEY \<longrightarrow>
         (case set_item c (VObj m) x of
            (Inl e, c') \<Rightarrow>
              (\<exists>t k. e = BannedTypeError t k) \<or> (\<exists>pe. e = AccessorError pe)
              \<or> e = SchemaViolation \<or> e = CircularStructure \<or> (\<exists>code. e = IOError code)
          | (Inr u, c') \<Rightarrow>
              store_cache c' = Some (length (heap c))
              \<and> (\<exists>h2 data. prefix h2 (heap c')
                    \<and> JSON_stringify h2 (VObj (length (heap c))) = SVal data
                    \<and> file_content c' = Some data)
              \<and> (refs_closed (heap c) \<and> distinct (map fst ((k0, v0) # rest))
                  \<and> outside_namespace k0
                  \<and> list_all (\<lambda>(k, v). k = INTERNAL_KEY \<or> outside_namespace k) rest
                  \<and> map_of rest INTERNAL_KEY = Some w
                  \<longrightarrow> fst (get c' INTERNAL_KEY VUndefined) = Inr w)))"
proof -
  let ?es = "(k0, v0) # rest"
  let ?h1 = "heap c @ [Obj NullProto (assign_props [] (own_props (heap c) (VObj a)))]"
  let ?a1 = "length (heap c)"
  from mapping have m: "m < length (heap c)" by (simp add: cell_at_Some_iff)
  have ty: "type_of (heap c) (VObj m) = ''object''"
    using mapping by (simp add: type_of_def)
  have op: "own_props (heap c) (VObj m) = ?es" "own_props ?h1 (VObj m) = ?es"
    using mapping m by (simp_all add: own_props_def cell_at_append)
  have guard: "containsReservedKey (heap c) (VObj m) = (k0 = INTERNAL_KEY)"
    by (simp add: containsReservedKey_def ty op)
  have refused: "set_item c (VObj m) x = (Inl ReservedKeyError, c)" if "k0 = INTERNAL_KEY"
    using that guard ty by (simp add: set_item_def)
  have accepted: "(case set_item c (VObj m) x of
            (Inl e, c') \<Rightarrow>
              (\<exists>t k. e = BannedTypeError t k) \<or> (\<exists>pe. e = AccessorError pe)
              \<or> e = SchemaViolation \<or> e = CircularStructure \<or> (\<exists>code. e = IOError code)
          | (Inr u, c') \<Rightarrow>
              store_cache c' = Some (length (heap c))
              \<and> (\<exists>h2 data. prefix h2 (heap c')
                    \<and> JSON_stringify h2 (VObj (length (heap c))) = SVal data
                    \<and> file_content c' = Some data)
              \<and> (refs_closed (heap c) \<and> distinct (map fst ((k0, v0) # rest))
                  \<and> outside_namespace k0
                  \<and> list_all (\<lambda>(k, v). k = INTERNAL_KEY \<or> outside_namespace k) rest
                  \<and> map_of rest INTERNAL_KEY = Some w
                  \<longrightarrow> fst (get c' INTERNAL_KEY VUndefined) = Inr w))"
    if first: "k0 \<noteq> INTERNAL_KEY"
  proof -
    from guard first have ng: "\<not> containsReservedKey (heap c) (VObj m)" by simp
    obtain r h2 where se: "set_entries ?h1 (VObj ?a1) ?es = (r, h2)"
      by (cases "set_entries ?h1 (VObj ?a1) ?es")
    have main: "set_item c (VObj m) x =
        (case r of Some e \<Rightarrow> (Inl e, c\<lparr>heap := h2\<rparr>)
         | None \<Rightarrow> set_store (c\<lparr>heap := h2\<rparr>) (VObj ?a1))"
      using ng ty se op by (simp add: set_item_def get_store_cached[OF cache] split: option.splits)
    show ?thesis
    proof (cases r)
      case (Some e)
      with se set_entries_error[of ?h1 "VObj ?a1" ?es e h2] main show ?thesis by auto
    next
      case None
      obtain r' c' where st: "set_store (c\<lparr>heap := h2\<rparr>) (VObj ?a1) = (r', c')"
        by (cases "set_store (c\<lparr>heap := h2\<rparr>) (VObj ?a1)")
      show ?thesis
      proof (cases r')
        case (Inl e)
        with st set_store_errors[of "c\<lparr>heap := h2\<rparr>" "VObj ?a1" e c'] main None
        show ?thesis by auto
      next
        case (Inr u)
        from set_store_Inr[of "c\<lparr>heap := h2\<rparr>" ?a1 u c'] st Inr
        have cache': "store_cache c' = Some ?a1" and pre: "prefix h2 (heap c')" by simp_all
        from st Inr have st': "set_store (c\<lparr>heap := h2\<rparr>) (VObj ?a1) = (Inr u, c')" by simp
        from set_store_persisted[OF st'] obtain data
          where "JSON_stringify h2 (VObj ?a1) = SVal data" "file_content c' = Some data"
          by auto
        with pre have persisted: "\<exists>h2 data. prefix h2 (heap c')
            \<and> JSON_stringify h2 (VObj ?a1) = SVal data \<and> file_content c' = Some data"
          by blast
        have "fst (get c' INTERNAL_KEY VUndefined) = Inr w"
          if closed: "refs_closed (heap c)" and dist: "distinct (map fst ?es)"
            and k0: "outside_namespace k0"
            and keys: "list_all (\<lambda>(k, v). k = INTERNAL_KEY \<or> outside_namespace k) rest"
            and w: "map_of rest INTERNAL_KEY = Some w"
        proof -
          from closed have "noref (heap c) ?a1" by (rule refs_closed_noref_fresh)
          then have nr: "noref ?h1 ?a1" by (rule noref_clone)
          have vals: "list_all (\<lambda>(k, v). v \<noteq> VObj ?a1) ?es"
            using closed mapping by (fastforce simp: refs_closed_iff list_all_iff)
          have keys': "list_all (\<lambda>(k, v). k = INTERNAL_KEY \<or> outside_namespace k) ?es"
            using keys k0 by simp
          from se None have se': "set_entries ?h1 (VObj ?a1) ?es = (None, h2)" by simp
          have "get_prop h2 ?a1 INTERNAL_KEY =
              (case map_of ?es INTERNAL_KEY of Some w \<Rightarrow> w | None \<Rightarrow> get_prop ?h1 ?a1 INTERNAL_KEY)"
            by (rule set_entries_internal[OF se' _ nr vals dist keys']) simp
          with w first have g2: "get_prop h2 ?a1 INTERNAL_KEY = w" by simp
          have "cell_distinct ?h1 ?a1" by (rule cell_distinct_clone)
          from cell_distinct_set_entries[OF this, of "VObj ?a1" ?es] se'
          have cd2: "cell_distinct h2 ?a1" by simp
          from cd2 have cd': "cell_distinct (heap c') ?a1" by (rule cell_distinct_prefix[OF pre])
          from cd2 have a2: "?a1 < length h2"
            by (auto simp: cell_distinct_def cell_at_Some_iff split: option.splits)
          let ?h3 = "heap c' @ [Obj NullProto (assign_props [] (own_props (heap c') (VObj ?a1)))]"
          have "prefix h2 ?h3" using pre by (simp add: prefix_def) (metis append.assoc)
          with a2 g2 have "get_prop ?h3 ?a1 INTERNAL_KEY = w" by (simp add: prefix_get_prop)
          then show ?thesis
            using seg_ok_no_string_index[OF seg_ok_INTERNAL_KEY]
            by (simp add: get_via_cache[OF cache' cd' getPathSegments_INTERNAL_KEY seg_ok_INTERNAL_KEY]
                prop_of_def)
        qed
        then have "refs_closed (heap c) \<and> distinct (map fst ((k0, v0) # rest))
                \<and> outside_namespace k0
                \<and> list_all (\<lambda>(k, v). k = INTERNAL_KEY \<or> outside_namespace k) rest
                \<and> map_of rest INTERNAL_KEY = Some w
                \<longrightarrow> fst (get c' INTERNAL_KEY VUndefined) = Inr w" by blast
        with st main None Inr cache' persisted show ?thesis
          by (simp del: distinct.simps list.map)
      qed
    qed
  qed
  from guard refused accepted show ?thesis by blast
qed

text \<open>
  The theorem at work, and the call whose existence the claim asserts: on the store with
  recorded version 1, \<open>set({ a: 1, __internal__: { migrationVersion: 99 } })\<close> returns, the
  recorded version is 99 and the file holds the new document.
\<close>

theorem bulk_set_reserved_key_later_witness:
  "store_cache c_bulk = Some 6 \<and> refs_closed (heap c_bulk)
   \<and> cell_at (heap c_bulk) 9 = Some (Obj Plain [(''a'', VNum 1), (INTERNAL_KEY, VObj 8)])
   \<and> \<not> containsReservedKey (heap c_bulk) (VObj 9)
   \<and> fst (get c_bulk MIGRATION_KEY VUndefined) = Inr (VNum 1)
   \<and> fst (set_item c_bulk (VObj 9) VUndefined) = Inr ()
   \<and> fst (get (snd (set_item c_bulk (VObj 9) VUndefined)) INTERNAL_KEY VUndefined) = Inr (VObj 8)
   \<and> fst (get (snd (set_item c_bulk (VObj 9) VUndefined)) MIGRATION_KEY VUndefined) = Inr (VNum 99)
   \<and> file_content (snd (set_item c_bulk (VObj 9) VUndefined))
       = Some (JObj [(''foo'', JStr ''foo''),
                     (''__internal__'', JObj [(''migrationVersion'', JNum 99)]),
                     (''a'', JNum 1)])"
proof -
  have h1: "store_cache c_bulk = Some 6" by code_simp
  have h2: "cell_at (heap c_bulk) 9 = Some (Obj Plain [(''a'', VNum 1), (INTERNAL_KEY, VObj 8)])"
    by code_simp
  have h3: "Plain \<noteq> Function" by simp
  have h4: "''a'' \<noteq> INTERNAL_KEY" by code_simp
  have side: "refs_closed (heap c_bulk)" "distinct (map fst [(''a'', VNum 1), (INTERNAL_KEY, VObj 8)])"
    "outside_namespace ''a''"
    "list_all (\<lambda>(k, v). k = INTERNAL_KEY \<or> outside_namespace k) [(INTERNAL_KEY, VObj 8)]"
    "map_of [(INTERNAL_KEY, VObj 8)] INTERNAL_KEY = Some (VObj 8)"
    by code_simp+
  have r: "fst (set_item c_bulk (VObj 9) VUndefined) = Inr ()" by code_simp
  have e: "fst (get c_bulk MIGRATION_KEY VUndefined) = Inr (VNum 1)"
    "fst (get (snd (set_item c_bulk (VObj 9) VUndefined)) MIGRATION_KEY VUndefined) = Inr (VNum 99)"
    "file_content (snd (set_item c_bulk (VObj 9) VUndefined))
       = Some (JObj [(''foo'', JStr ''foo''),
                     (''__internal__'', JObj [(''migrationVersion'', JNum 99)]),
                     (''a'', JNum 1)])"
    by code_simp+
  note t = bulk_set_reserved_key_later[OF h1 h2 h3, where x = VUndefined and w = "VObj 8"]
  from t h4 have g: "\<not> containsReservedKey (heap c_bulk) (VObj 9)" by simp
  from t h4 r side
  have "fst (get (snd (set_item c_bulk (VObj 9) VUndefined)) INTERNAL_KEY VUndefined) = Inr (VObj 8)"
    by (cases "set_item c_bulk (VObj 9) VUndefined") auto
  with h1 h2 g r e side(1) show ?thesis by simp
qed

text \<open>
  Claim C9 as stated fails: not every mapping whose first key is another one and that has
  \<open>__internal__\<close> as a later key is accepted. \<open>set({ a: undefined, __internal__: {
  migrationVersion: 99 } })\<close> passes the guard, then throws at the value of \<open>a\<close>, whose type is
  banned, and the recorded version stays 1.
\<close>

theorem bulk_set_banned_value_counterexample:
  "cell_at (heap c_bulk_undefined) 9
       = Some (Obj Plain [(''a'', VUndefined), (INTERNAL_KEY, VObj 8)])
   \<and> ''a'' \<noteq> INTERNAL_KEY
   \<and> \<not> containsReservedKey (heap c_bulk_undefined) (VObj 9)
   \<and> fst (get c_bulk_undefined MIGRATION_KEY VUndefined) = Inr (VNum 1)
   \<and> fst (set_item c_bulk_undefined (VObj 9) VUndefined) = Inl (BannedTypeError ''undefined'' ''a'')
   \<and> fst (get (snd (set_item c_bulk_undefined (VObj 9) VUndefined)) MIGRATION_KEY VUndefined)
       = Inr (VNum 1)
   \<and> file_content (snd (set_item c_bulk_undefined (VObj 9) VUndefined))
       = file_content c_bulk_undefined"
  by code_simp

end
